theory Spec2Isabelle
  imports Main "HOL-Library.Word"
begin

section \<open>The Universe of virtuakube (universe.go)\<close>

text \<open>
  A shallow embedding of \<^verbatim>\<open>universe.go\<close>. The Go code works on three kinds of state:
  the fields of the \<^verbatim>\<open>Universe\<close> struct, objects shared with goroutines and with the
  operating system (the lifetime context, the port channel, the switch process, the
  file system, the byte arrays behind \<^verbatim>\<open>net.IP\<close> values), and the results of calls
  into the operating system. The struct is the record \<open>Universe\<close>, the shared objects
  are the record \<open>world\<close>, and the operating system's answers are the functions of the
  record \<open>os\<close>, a parameter of every operation that calls out.
\<close>

subsection \<open>Errors\<close>

text \<open>
  Go's \<^verbatim>\<open>error\<close> values as far as the code tells them apart: \<^verbatim>\<open>exec.ErrNotFound\<close>,
  an \<^verbatim>\<open>*exec.Error{Name, Err}\<close>, an error made by \<^verbatim>\<open>errors.New\<close> or
  \<^verbatim>\<open>fmt.Errorf\<close> (its message), and any other error of a system call.
\<close>

datatype error =
    ErrNotFound
  | ExecError string error
  | ErrorString string
  | SyscallError string

subsection \<open>The operating system\<close>

text \<open>
  The calls the code makes into the standard library and the system, as functions:
  \<^verbatim>\<open>exec.LookPath(tool)\<close> (only its error is used), \<^verbatim>\<open>ioutil.TempDir(dir, prefix)\<close>
  on the current files, \<^verbatim>\<open>(*exec.Cmd).Start\<close> of a command line, and
  \<^verbatim>\<open>os.RemoveAll(path)\<close>, which returns its error and the files left.
\<close>

record os =
  exec_LookPath :: "string \<Rightarrow> error option"
  ioutil_TempDir :: "string list \<Rightarrow> string \<Rightarrow> string \<Rightarrow> error + string"
  cmd_Start :: "string list \<Rightarrow> error option"
  os_RemoveAll :: "string list \<Rightarrow> string \<Rightarrow> error option \<times> string list"

subsection \<open>checkTools\<close>

definition universeTools :: "string list" where
  "universeTools = [''vde_switch'', ''qemu-system-x86_64'', ''qemu-img'']"

text \<open>\<^verbatim>\<open>strings.Join(elems, sep)\<close>.\<close>

fun strings_Join :: "string list \<Rightarrow> string \<Rightarrow> string" where
  "strings_Join [] sep = []"
| "strings_Join [x] sep = x"
| "strings_Join (x # y # ys) sep = x @ sep @ strings_Join (y # ys) sep"

text \<open>
  The loop of \<^verbatim>\<open>checkTools\<close> over the remaining tools, with the slice \<^verbatim>\<open>missing\<close>
  built so far: \<open>Inl err\<close> is the early \<^verbatim>\<open>return err\<close>, \<open>Inr missing\<close> the end of
  the loop.
\<close>

fun checkTools_loop ::
  "(string \<Rightarrow> error option) \<Rightarrow> string list \<Rightarrow> string list \<Rightarrow> error + string list" where
  "checkTools_loop look missing [] = Inr missing"
| "checkTools_loop look missing (tool # tools) =
     (case look tool of
        None \<Rightarrow> checkTools_loop look missing tools
      | Some err \<Rightarrow>
          (case err of
             ExecError name e \<Rightarrow>
               if e = ErrNotFound then checkTools_loop look (missing @ [tool]) tools
               else Inl err
           | _ \<Rightarrow> Inl err))"

definition checkTools :: "(string \<Rightarrow> error option) \<Rightarrow> string list \<Rightarrow> error option" where
  "checkTools look tools =
     (case checkTools_loop look [] tools of
        Inl err \<Rightarrow> Some err
      | Inr missing \<Rightarrow>
          if length missing > 0
          then Some (ErrorString (''required tools missing: '' @ strings_Join missing '', ''))
          else None)"

text \<open>The two ways a lookup fails, as \<^verbatim>\<open>checkTools\<close> tells them apart.\<close>

definition notFound :: "error option \<Rightarrow> bool" where
  "notFound r = (case r of Some (ExecError name e) \<Rightarrow> e = ErrNotFound | _ \<Rightarrow> False)"

definition otherFailure :: "error option \<Rightarrow> bool" where
  "otherFailure r = (r \<noteq> None \<and> \<not> notFound r)"

subsection \<open>The shared objects\<close>

type_synonym byte = "8 word"

text \<open>
  A \<^verbatim>\<open>net.IP\<close> is a byte slice: a reference to its backing array. The arrays live in
  \<open>heap\<close>, a reference is an index into it, and \<^verbatim>\<open>make\<close> appends a fresh array.
\<close>

type_synonym IP = nat

datatype event =
    MkdirTemp string
  | WithCancel
  | StartProcess "string list"
  | Shutdown
  | RemoveAllCall string

datatype proc = NoProcess | Running | Exited

datatype watcher = NotLaunched | Waiting | Finished

text \<open>
  The port goroutine: not launched, in its \<^verbatim>\<open>select\<close> with the local variable
  \<^verbatim>\<open>port\<close> (a Go \<^verbatim>\<open>int\<close>, 64 bits on the amd64 hosts the switch and qemu run on,
  read as signed by \<open>sint\<close>), or returned.
\<close>

datatype portgen = NoGenerator | Offering "64 word" | Returned

text \<open>
  \<open>parentDone\<close>: the context passed to \<^verbatim>\<open>New\<close> has ended. \<open>lifetime\<close>: the context
  derived by \<^verbatim>\<open>context.WithCancel\<close> (\<open>None\<close> before it is derived), with whether its
  \<^verbatim>\<open>CancelFunc\<close> has been called. \<open>files\<close>: the directories that exist.
  \<open>portsClosed\<close>: the channel \<^verbatim>\<open>ports\<close> has been closed. \<open>trace\<close>: the calls with an
  effect outside the process, in order.
\<close>

record world =
  parentDone :: bool
  lifetime :: "bool option"
  files :: "string list"
  heap :: "byte list list"
  portsClosed :: bool
  switchProc :: proc
  switchWatcher :: watcher
  ctxWatcher :: watcher
  portGen :: portgen
  trace :: "event list"

text \<open>\<^verbatim>\<open>ctx.Done()\<close> of the derived context is closed: it was cancelled or its parent ended.\<close>

definition ctxDone :: "world \<Rightarrow> bool" where
  "ctxDone w = (case lifetime w of None \<Rightarrow> False | Some c \<Rightarrow> c \<or> parentDone w)"

subsection \<open>The Universe struct\<close>

text \<open>A \<^verbatim>\<open>*VM\<close>: a pointer to a VM, whose struct is defined outside \<^verbatim>\<open>universe.go\<close>.\<close>

datatype VM = VMPtr nat

text \<open>
  The fields of the struct that hold values. The fields \<^verbatim>\<open>ctx\<close>, \<^verbatim>\<open>shutdown\<close> and
  \<^verbatim>\<open>ports\<close> are handles to the world's \<open>lifetime\<close> and port channel; \<^verbatim>\<open>swtch\<close> is
  the command line of the switch, its process is the world's \<open>switchProc\<close>;
  \<^verbatim>\<open>closeMu\<close> makes the body of \<^verbatim>\<open>Close\<close> one atomic step.
\<close>

record Universe =
  tmpdir :: string
  nextIP4 :: IP
  nextIP6 :: IP
  vms :: "string \<Rightarrow> VM option"
  swtch :: "string list"
  sock :: string
  closed :: bool
  closeErr :: "error option"

subsection \<open>Close\<close>

text \<open>\<^verbatim>\<open>u.shutdown()\<close>: the \<^verbatim>\<open>CancelFunc\<close> of the lifetime context.\<close>

definition shutdown :: "world \<Rightarrow> world" where
  "shutdown w = w\<lparr>lifetime := map_option (\<lambda>c. True) (lifetime w), trace := trace w @ [Shutdown]\<rparr>"

definition Close :: "os \<Rightarrow> world \<Rightarrow> Universe \<Rightarrow> error option \<times> world \<times> Universe" where
  "Close sys w u =
     (if closed u then (closeErr u, w, u)
      else
        let u1 = u\<lparr>closed := True\<rparr>;
            w1 = shutdown w;
            (err, left) = os_RemoveAll sys (files w1) (tmpdir u1);
            w2 = w1\<lparr>files := left, trace := trace w1 @ [RemoveAllCall (tmpdir u1)]\<rparr>;
            u2 = u1\<lparr>closeErr := err\<rparr>
        in (err, w2, u2))"

subsection \<open>New\<close>

text \<open>
  \<^verbatim>\<open>filepath.Clean\<close> on a Unix path, by path elements. \<open>path_elems\<close> splits at each
  \<^verbatim>\<open>/\<close>. \<open>clean_elems\<close> goes through the elements with the ones kept so far (the
  last one first): an empty element and \<^verbatim>\<open>.\<close> are dropped; \<^verbatim>\<open>..\<close> removes the last
  element kept unless that is itself \<^verbatim>\<open>..\<close>, is dropped at the root, and is kept
  otherwise. The cleaned path of the empty string and of a relative path with no element
  left is \<^verbatim>\<open>.\<close>.
\<close>

fun path_elems :: "string \<Rightarrow> string \<Rightarrow> string list" where
  "path_elems cur [] = [cur]"
| "path_elems cur (c # cs) =
     (if c = CHR ''/'' then cur # path_elems [] cs else path_elems (cur @ [c]) cs)"

fun clean_elems :: "bool \<Rightarrow> string list \<Rightarrow> string list \<Rightarrow> string list" where
  "clean_elems rooted kept [] = rev kept"
| "clean_elems rooted kept (e # es) =
     (if e = [] \<or> e = ''.'' then clean_elems rooted kept es
      else if e = ''..'' then
        (case kept of
           [] \<Rightarrow> if rooted then clean_elems rooted kept es else clean_elems rooted (e # kept) es
         | e' # below \<Rightarrow>
             if e' \<noteq> ''..'' then clean_elems rooted below es
             else if rooted then clean_elems rooted kept es
             else clean_elems rooted (e # kept) es)
      else clean_elems rooted (e # kept) es)"

definition filepath_Clean :: "string \<Rightarrow> string" where
  "filepath_Clean path =
     (case path of
        [] \<Rightarrow> ''.''
      | c # cs \<Rightarrow>
          let rooted = (c = CHR ''/'');
              body = strings_Join (clean_elems rooted [] (path_elems [] path)) ''/''
          in if rooted then ''/'' @ body else if body = [] then ''.'' else body)"

text \<open>
  \<^verbatim>\<open>filepath.Join(p, elem)\<close>: the elements from the first non-empty one on, joined by
  \<^verbatim>\<open>/\<close> and cleaned; the empty string when both are empty.
\<close>

definition filepath_Join :: "string \<Rightarrow> string \<Rightarrow> string" where
  "filepath_Join p elem =
     (if p \<noteq> [] then filepath_Clean (p @ ''/'' @ elem)
      else if elem \<noteq> [] then filepath_Clean elem
      else [])"

text \<open>\<^verbatim>\<open>net.ParseIP("172.20.0.1").To4()\<close> and \<^verbatim>\<open>net.ParseIP("fd00::1")\<close>.\<close>

definition ip4_172_20_0_1 :: "byte list" where
  "ip4_172_20_0_1 = [172, 20, 0, 1]"

definition ip6_fd00_1 :: "byte list" where
  "ip6_fd00_1 = [253, 0, 0, 0, 0, 0, 0, 0, 0, 0, 0, 0, 0, 0, 0, 1]"

text \<open>A new array with the given bytes.\<close>

definition alloc :: "byte list \<Rightarrow> world \<Rightarrow> IP \<times> world" where
  "alloc bs w = (length (heap w), w\<lparr>heap := heap w @ [bs]\<rparr>)"

definition New :: "os \<Rightarrow> world \<Rightarrow> world \<times> Universe option \<times> error option" where
  "New sys w =
     (case checkTools (exec_LookPath sys) universeTools of
        Some err \<Rightarrow> (w, None, Some err)
      | None \<Rightarrow>
          (case ioutil_TempDir sys (files w) [] ''virtuakube'' of
             Inl err \<Rightarrow> (w, None, Some err)
           | Inr p \<Rightarrow>
               let w1 = w\<lparr>files := p # files w, trace := trace w @ [MkdirTemp p]\<rparr>;
                   w2 = w1\<lparr>lifetime := Some False, trace := trace w1 @ [WithCancel]\<rparr>;
                   sck = filepath_Join p ''switch'';
                   w3 = w2\<lparr>portsClosed := False\<rparr>;
                   (ip4, w4) = alloc ip4_172_20_0_1 w3;
                   (ip6, w5) = alloc ip6_fd00_1 w4;
                   ret = \<lparr>tmpdir = p, nextIP4 = ip4, nextIP6 = ip6, vms = (\<lambda>h. None),
                          swtch = [''vde_switch'', ''--sock'', sck, ''-m'', ''0600''],
                          sock = sck, closed = False, closeErr = None\<rparr>
               in
                 (case cmd_Start sys (swtch ret) of
                    Some err \<Rightarrow>
                      (case Close sys w5 ret of (e, w6, ret') \<Rightarrow> (w6, None, Some err))
                  | None \<Rightarrow>
                      (w5\<lparr>switchProc := Running,
                          switchWatcher := Waiting,
                          ctxWatcher := Waiting,
                          portGen := Offering 50000,
                          trace := trace w5 @ [StartProcess (swtch ret)]\<rparr>,
                       Some ret, None))))"

subsection \<open>Tmpdir, Wait, VM\<close>

definition Tmpdir :: "os \<Rightarrow> world \<Rightarrow> Universe \<Rightarrow> string \<Rightarrow> (error + string) \<times> world" where
  "Tmpdir sys w u prefix =
     (case ioutil_TempDir sys (files w) (tmpdir u) prefix of
        Inl err \<Rightarrow> (Inl err, w)
      | Inr p \<Rightarrow> (Inr p, w\<lparr>files := p # files w, trace := trace w @ [MkdirTemp p]\<rparr>))"

text \<open>
  A call that can block: \<open>Blocks\<close> when no case of the \<^verbatim>\<open>select\<close> (or no partner of
  the channel operation) is ready in the current state.
\<close>

datatype 'a blocking = Blocks | Returns 'a

text \<open>
  \<^verbatim>\<open>Wait(ctx)\<close> in the current state; \<open>callerDone\<close>: the caller's context has ended.
  When both cases of the \<^verbatim>\<open>select\<close> are ready Go picks one at random: \<open>pick\<close>.
\<close>

definition Wait ::
  "bool \<Rightarrow> world \<Rightarrow> Universe \<Rightarrow> bool \<Rightarrow> error option blocking \<times> world \<times> Universe" where
  "Wait pick w u callerDone =
     (if ctxDone w \<and> callerDone
      then (Returns (if pick then None else Some (ErrorString ''timeout'')), w, u)
      else if ctxDone w then (Returns None, w, u)
      else if callerDone then (Returns (Some (ErrorString ''timeout'')), w, u)
      else (Blocks, w, u))"

definition VM :: "Universe \<Rightarrow> string \<Rightarrow> VM option" where
  "VM u hostname = vms u hostname"

subsection \<open>The address allocators\<close>

text \<open>\<^verbatim>\<open>make(net.IP, n)\<close>: a fresh array of \<open>n\<close> zero bytes.\<close>

definition make_IP :: "nat \<Rightarrow> world \<Rightarrow> IP \<times> world" where
  "make_IP n w = alloc (replicate n 0) w"

text \<open>\<^verbatim>\<open>copy(dst, src)\<close>: the first \<open>min (len dst) (len src)\<close> bytes.\<close>

definition copy_IP :: "IP \<Rightarrow> IP \<Rightarrow> world \<Rightarrow> world" where
  "copy_IP dst src w =
     (let d = heap w ! dst; s = heap w ! src; n = min (length d) (length s)
      in w\<lparr>heap := (heap w)[dst := take n s @ drop n d]\<rparr>)"

text \<open>
  \<^verbatim>\<open>ip[i]++\<close> on a byte: the addition wraps. Both callers index an array they have just
  made with \<open>i + 1\<close> bytes, so the index is in range.
\<close>

definition incr_byte :: "IP \<Rightarrow> nat \<Rightarrow> world \<Rightarrow> world" where
  "incr_byte ip i w = w\<lparr>heap := (heap w)[ip := (heap w ! ip)[i := (heap w ! ip) ! i + 1]]\<rparr>"

definition ipv4 :: "world \<Rightarrow> Universe \<Rightarrow> IP \<times> world \<times> Universe" where
  "ipv4 w u =
     (let ret = nextIP4 u;
          (p, w1) = make_IP 4 w;
          u1 = u\<lparr>nextIP4 := p\<rparr>;
          w2 = copy_IP (nextIP4 u1) ret w1;
          w3 = incr_byte (nextIP4 u1) 3 w2
      in (ret, w3, u1))"

definition ipv6 :: "world \<Rightarrow> Universe \<Rightarrow> IP \<times> world \<times> Universe" where
  "ipv6 w u =
     (let ret = nextIP6 u;
          (p, w1) = make_IP 16 w;
          u1 = u\<lparr>nextIP6 := p\<rparr>;
          w2 = copy_IP (nextIP6 u1) ret w1;
          w3 = incr_byte (nextIP6 u1) 15 w2
      in (ret, w3, u1))"

text \<open>The cursors refer to arrays of the heap, of 4 and of 16 bytes.\<close>

definition cursors_ok :: "world \<Rightarrow> Universe \<Rightarrow> bool" where
  "cursors_ok w u =
     (nextIP4 u < length (heap w) \<and> length (heap w ! nextIP4 u) = 4 \<and>
      nextIP6 u < length (heap w) \<and> length (heap w ! nextIP6 u) = 16)"

text \<open>\<open>n\<close> calls of \<^verbatim>\<open>ipv4\<close> (of \<^verbatim>\<open>ipv6\<close>) in sequence, with the slices they return.\<close>

fun ipv4s :: "nat \<Rightarrow> world \<Rightarrow> Universe \<Rightarrow> IP list \<times> world \<times> Universe" where
  "ipv4s 0 w u = ([], w, u)"
| "ipv4s (Suc n) w u =
     (case ipv4 w u of (r, w1, u1) \<Rightarrow>
        (case ipv4s n w1 u1 of (rs, w2, u2) \<Rightarrow> (r # rs, w2, u2)))"

fun ipv6s :: "nat \<Rightarrow> world \<Rightarrow> Universe \<Rightarrow> IP list \<times> world \<times> Universe" where
  "ipv6s 0 w u = ([], w, u)"
| "ipv6s (Suc n) w u =
     (case ipv6 w u of (r, w1, u1) \<Rightarrow>
        (case ipv6s n w1 u1 of (rs, w2, u2) \<Rightarrow> (r # rs, w2, u2)))"

text \<open>
  Any sequence of calls of the two allocators (\<open>True\<close>: \<^verbatim>\<open>ipv4\<close>, \<open>False\<close>:
  \<^verbatim>\<open>ipv6\<close>); each returned slice is listed with the bytes it had when it was returned.
\<close>

fun allocs ::
  "bool list \<Rightarrow> world \<Rightarrow> Universe \<Rightarrow> (IP \<times> byte list) list \<times> world \<times> Universe" where
  "allocs [] w u = ([], w, u)"
| "allocs (v4 # ks) w u =
     (case (if v4 then ipv4 w u else ipv6 w u) of (r, w1, u1) \<Rightarrow>
        (case allocs ks w1 u1 of (rs, w2, u2) \<Rightarrow> ((r, heap w1 ! r) # rs, w2, u2)))"

subsection \<open>The port stream\<close>

text \<open>What \<^verbatim>\<open>v, ok := <-u.ports\<close> gives: a value sent, or the not-ok of a closed channel.\<close>

datatype recv = Received "64 word" | NotOk

text \<open>
  A receive from \<^verbatim>\<open>ports\<close> in the current state. The channel is unbuffered: the
  receive completes with the port goroutine when that is in its \<^verbatim>\<open>select\<close>. A
  closed channel gives not-ok. With the lifetime context done both cases of the
  \<^verbatim>\<open>select\<close> are ready and Go picks one at random (\<open>pickSend\<close>): the send, or
  \<^verbatim>\<open>return\<close>, which leaves the receiver without a sender.
\<close>

definition recvPort :: "bool \<Rightarrow> world \<Rightarrow> recv blocking \<times> world" where
  "recvPort pickSend w =
     (if portsClosed w then (Returns NotOk, w)
      else
        (case portGen w of
           Offering port \<Rightarrow>
             if ctxDone w \<and> \<not> pickSend then (Blocks, w\<lparr>portGen := Returned\<rparr>)
             else (Returns (Received port), w\<lparr>portGen := Offering (port + 1)\<rparr>)
         | _ \<Rightarrow> (Blocks, w)))"

text \<open>The port goroutine runs with no receiver waiting: only \<^verbatim>\<open>ctx.Done()\<close> can be ready.\<close>

definition portGenRuns :: "world \<Rightarrow> world" where
  "portGenRuns w =
     (case portGen w of
        Offering port \<Rightarrow> if ctxDone w then w\<lparr>portGen := Returned\<rparr> else w
      | _ \<Rightarrow> w)"

text \<open>Receives in sequence, one per element of \<open>picks\<close>.\<close>

fun recvPorts :: "bool list \<Rightarrow> world \<Rightarrow> recv blocking list \<times> world" where
  "recvPorts [] w = ([], w)"
| "recvPorts (pick # picks) w =
     (case recvPort pick w of (r, w1) \<Rightarrow>
        (case recvPorts picks w1 of (rs, w2) \<Rightarrow> (r # rs, w2)))"

text \<open>The Go \<^verbatim>\<open>int\<close> a receive delivered, if it delivered one.\<close>

definition portValue :: "recv blocking \<Rightarrow> int option" where
  "portValue r = (case r of Returns (Received p) \<Rightarrow> Some (sint p) | _ \<Rightarrow> None)"

subsection \<open>The universe as a transition system\<close>

text \<open>
  What can happen to a universe: the calls of its methods by any goroutine, the events
  of its surroundings (the parent context ends, the switch process exits) and the steps
  of the three goroutines launched by \<^verbatim>\<open>New\<close>. The watchers call \<^verbatim>\<open>Close\<close> once
  what they wait for has happened.
\<close>

datatype op =
    CallClose
  | ParentCancels
  | SwitchExits
  | SwitchWatcherRuns
  | CtxWatcherRuns
  | PortGenRuns
  | Receive bool
  | CallIPv4
  | CallIPv6
  | CallWait bool bool
  | CallTmpdir string

fun step :: "os \<Rightarrow> op \<Rightarrow> world \<times> Universe \<Rightarrow> world \<times> Universe" where
  "step sys CallClose (w, u) = snd (Close sys w u)"
| "step sys ParentCancels (w, u) = (w\<lparr>parentDone := True\<rparr>, u)"
| "step sys SwitchExits (w, u) =
     (if switchProc w = Running then w\<lparr>switchProc := Exited\<rparr> else w, u)"
| "step sys SwitchWatcherRuns (w, u) =
     (if switchWatcher w = Waiting \<and> switchProc w = Exited
      then snd (Close sys (w\<lparr>switchWatcher := Finished\<rparr>) u) else (w, u))"
| "step sys CtxWatcherRuns (w, u) =
     (if ctxWatcher w = Waiting \<and> ctxDone w
      then snd (Close sys (w\<lparr>ctxWatcher := Finished\<rparr>) u) else (w, u))"
| "step sys PortGenRuns (w, u) = (portGenRuns w, u)"
| "step sys (Receive pick) (w, u) = (snd (recvPort pick w), u)"
| "step sys CallIPv4 (w, u) = snd (ipv4 w u)"
| "step sys CallIPv6 (w, u) = snd (ipv6 w u)"
| "step sys (CallWait pick callerDone) (w, u) = snd (Wait pick w u callerDone)"
| "step sys (CallTmpdir pre) (w, u) = (snd (Tmpdir sys w u pre), u)"

fun run :: "os \<Rightarrow> op list \<Rightarrow> world \<times> Universe \<Rightarrow> world \<times> Universe" where
  "run sys [] s = s"
| "run sys (x # xs) s = run sys xs (step sys x s)"

text \<open>The calls of the trace that tear down: cancelling and removing.\<close>

definition teardownEvents :: "event list \<Rightarrow> event list" where
  "teardownEvents tr =
     filter (\<lambda>e. case e of Shutdown \<Rightarrow> True | RemoveAllCall p \<Rightarrow> True | _ \<Rightarrow> False) tr"

subsection \<open>A sample system\<close>

text \<open>
  An operating system where every tool resolves, temporary directories can be made, the
  switch starts and removal succeeds; and a world in which nothing has been made yet.
\<close>

definition sample_os :: os where
  "sample_os =
     \<lparr>exec_LookPath = (\<lambda>tool. None),
      ioutil_TempDir =
        (\<lambda>fs dir pre. Inr ((if dir = [] then ''/tmp'' else dir) @ ''/'' @ pre @ ''042'')),
      cmd_Start = (\<lambda>argv. None),
      os_RemoveAll = (\<lambda>fs p. (None, filter (\<lambda>q. take (length p) q \<noteq> p) fs))\<rparr>"

definition sample_world :: world where
  "sample_world =
     \<lparr>parentDone = False, lifetime = None, files = [], heap = [], portsClosed = False,
      switchProc = NoProcess, switchWatcher = NotLaunched, ctxWatcher = NotLaunched,
      portGen = NoGenerator, trace = []\<rparr>"

text \<open>
  The world and the universe that \<^verbatim>\<open>New\<close> makes of the sample system, and the same
  world with both cursors at a last byte of 255.
\<close>

definition sample_fresh :: world where
  "sample_fresh =
     \<lparr>parentDone = False, lifetime = Some False, files = [''/tmp/virtuakube042''],
      heap = [ip4_172_20_0_1, ip6_fd00_1], portsClosed = False,
      switchProc = Running, switchWatcher = Waiting, ctxWatcher = Waiting,
      portGen = Offering 50000,
      trace = [MkdirTemp ''/tmp/virtuakube042'', WithCancel,
               StartProcess [''vde_switch'', ''--sock'', ''/tmp/virtuakube042/switch'',
                             ''-m'', ''0600'']]\<rparr>"

definition sample_universe :: Universe where
  "sample_universe =
     \<lparr>tmpdir = ''/tmp/virtuakube042'', nextIP4 = 0, nextIP6 = 1, vms = (\<lambda>h. None),
      swtch = [''vde_switch'', ''--sock'', ''/tmp/virtuakube042/switch'', ''-m'', ''0600''],
      sock = ''/tmp/virtuakube042/switch'', closed = False, closeErr = None\<rparr>"

definition sample_last :: world where
  "sample_last =
     sample_fresh\<lparr>heap := [[172, 20, 0, 255],
                            [253, 0, 0, 0, 0, 0, 0, 0, 0, 0, 0, 0, 0, 0, 0, 255]]\<rparr>"

text \<open>
  Variations of the sample system: removal fails; the switch does not start either; one
  tool is missing while another is found only relative to the current directory, which
  \<^verbatim>\<open>exec.LookPath\<close> of Go 1.19 and later refuses with an error that is not
  \<^verbatim>\<open>exec.ErrNotFound\<close>; two tools are missing.
\<close>

definition sample_os_stuck :: os where
  "sample_os_stuck =
     sample_os\<lparr>os_RemoveAll :=
       (\<lambda>fs p. (Some (SyscallError ''unlinkat: permission denied''), fs))\<rparr>"

definition sample_os_nostart :: os where
  "sample_os_nostart =
     sample_os_stuck\<lparr>cmd_Start :=
       (\<lambda>argv. Some (ExecError ''vde_switch'' (SyscallError ''fork/exec: resource temporarily unavailable'')))\<rparr>"

definition sample_os_dot :: os where
  "sample_os_dot =
     sample_os\<lparr>exec_LookPath :=
       (\<lambda>tool. if tool = ''vde_switch'' then Some (ExecError tool ErrNotFound)
               else if tool = ''qemu-img''
               then Some (ExecError tool
                      (ErrorString ''cannot run executable found relative to current directory''))
               else None)\<rparr>"

definition sample_os_missing :: os where
  "sample_os_missing =
     sample_os\<lparr>exec_LookPath :=
       (\<lambda>tool. if tool = ''qemu-system-x86_64'' then None
               else Some (ExecError tool ErrNotFound))\<rparr>"

section \<open>The tool check\<close>

lemma checkTools_loop_no_other:
  "\<forall>t\<in>set tools. \<not> otherFailure (look t) \<Longrightarrow>
   checkTools_loop look missing tools = Inr (missing @ filter (\<lambda>t. notFound (look t)) tools)"
proof (induction tools arbitrary: missing)
  case Nil
  then show ?case by simp
next
  case (Cons t ts)
  then show ?case
    by (auto simp: otherFailure_def notFound_def split: option.splits error.splits)
qed

lemma checkTools_loop_other:
  "\<forall>t\<in>set pre. \<not> otherFailure (look t) \<Longrightarrow> look t = Some err \<Longrightarrow> otherFailure (look t) \<Longrightarrow>
   checkTools_loop look missing (pre @ t # rest) = Inl err"
proof (induction pre arbitrary: missing)
  case Nil
  then show ?case
    by (auto simp: otherFailure_def notFound_def split: option.splits error.splits)
next
  case (Cons p ps)
  then show ?case
    by (auto simp: otherFailure_def notFound_def split: option.splits error.splits)
qed

lemma strings_Join_concat:
  "xs \<noteq> [] \<Longrightarrow> strings_Join xs sep = concat (map (\<lambda>x. x @ sep) (butlast xs)) @ last xs"
  by (induction xs sep rule: strings_Join.induct) simp_all

lemma strings_Join_infix:
  "t \<in> set xs \<Longrightarrow> \<exists>pre post. strings_Join xs sep = pre @ t @ post"
proof (induction xs sep rule: strings_Join.induct)
  case (1 sep)
  then show ?case by simp
next
  case (2 x sep)
  then have "strings_Join [x] sep = [] @ t @ []" by simp
  then show ?case by blast
next
  case (3 x y ys sep)
  show ?case
  proof (cases "t = x")
    case True
    then have "strings_Join (x # y # ys) sep = [] @ t @ (sep @ strings_Join (y # ys) sep)" by simp
    then show ?thesis by blast
  next
    case False
    with 3 obtain pre post where "strings_Join (y # ys) sep = pre @ t @ post" by auto
    then have "strings_Join (x # y # ys) sep = (x @ sep @ pre) @ t @ post" by simp
    then show ?thesis by blast
  qed
qed

lemma checkTools_missing:
  assumes no: "\<forall>t\<in>set tools. \<not> otherFailure (look t)"
    and some: "\<exists>t\<in>set tools. notFound (look t)"
  shows "checkTools look tools =
      Some (ErrorString (''required tools missing: '' @
        concat (map (\<lambda>t. t @ '', '') (butlast (filter (\<lambda>t. notFound (look t)) tools))) @
        last (filter (\<lambda>t. notFound (look t)) tools)))"
    and "\<forall>t\<in>set tools. notFound (look t) \<longrightarrow>
      (\<exists>pre post. checkTools look tools = Some (ErrorString (pre @ t @ post)))"
proof -
  let ?m = "filter (\<lambda>t. notFound (look t)) tools"
  from some have ne: "?m \<noteq> []" by (auto simp: filter_empty_conv)
  with no have c: "checkTools look tools =
      Some (ErrorString (''required tools missing: '' @ strings_Join ?m '', ''))"
    by (simp add: checkTools_def checkTools_loop_no_other)
  show "checkTools look tools =
      Some (ErrorString (''required tools missing: '' @
        concat (map (\<lambda>t. t @ '', '') (butlast ?m)) @ last ?m))"
    unfolding c strings_Join_concat [OF ne] by simp
  show "\<forall>t\<in>set tools. notFound (look t) \<longrightarrow>
      (\<exists>pre post. checkTools look tools = Some (ErrorString (pre @ t @ post)))"
  proof (intro ballI impI)
    fix t assume "t \<in> set tools" and "notFound (look t)"
    then have "t \<in> set ?m" by simp
    from strings_Join_infix [OF this, of "'', ''"] obtain pre post
      where "strings_Join ?m '', '' = pre @ t @ post" by blast
    then have "checkTools look tools =
        Some (ErrorString ((''required tools missing: '' @ pre) @ t @ post))"
      unfolding c by simp
    then show "\<exists>pre post. checkTools look tools = Some (ErrorString (pre @ t @ post))"
      by blast
  qed
qed

lemma checkTools_other:
  assumes "\<forall>t\<in>set pre. \<not> otherFailure (look t)" and "look t = Some err"
    and "otherFailure (look t)"
  shows "checkTools look (pre @ t # rest) = Some err"
  using checkTools_loop_other [OF assms, of "[]" rest] by (simp add: checkTools_def)

text \<open>
  C6. \<^verbatim>\<open>checkTools\<close> succeeds when every tool resolves. When every lookup resolves or
  reports not-found and at least one reports not-found, the result is one error whose
  message is \<^verbatim>\<open>required tools missing: \<close> followed by every missing tool in order,
  each but the last followed by a comma and a space; so every missing tool's name
  stands in the message. When a lookup fails for another reason, that error is returned
  at once: whatever the tools after it are and whatever their lookups would answer.
\<close>

theorem checkTools_spec:
  "((\<forall>t\<in>set tools. look t = None) \<longrightarrow> checkTools look tools = None) \<and>
   ((\<forall>t\<in>set tools. \<not> otherFailure (look t)) \<and> (\<exists>t\<in>set tools. notFound (look t)) \<longrightarrow>
      checkTools look tools =
        Some (ErrorString (''required tools missing: '' @
          concat (map (\<lambda>t. t @ '', '') (butlast (filter (\<lambda>t. notFound (look t)) tools))) @
          last (filter (\<lambda>t. notFound (look t)) tools))) \<and>
      (\<forall>t\<in>set tools. notFound (look t) \<longrightarrow>
         (\<exists>pre post. checkTools look tools = Some (ErrorString (pre @ t @ post))))) \<and>
   ((\<forall>t\<in>set pre. \<not> otherFailure (look t)) \<and> look t = Some err \<and> otherFailure (look t) \<longrightarrow>
      checkTools look (pre @ t # rest) = Some err)"
proof (intro conjI impI)
  assume a: "\<forall>t\<in>set tools. look t = None"
  then have "\<forall>t\<in>set tools. \<not> otherFailure (look t)" by (simp add: otherFailure_def)
  moreover from a have "filter (\<lambda>t. notFound (look t)) tools = []"
    by (simp add: notFound_def filter_empty_conv)
  ultimately show "checkTools look tools = None"
    by (simp add: checkTools_def checkTools_loop_no_other)
next
  assume a: "(\<forall>t\<in>set tools. \<not> otherFailure (look t)) \<and> (\<exists>t\<in>set tools. notFound (look t))"
  then have 1: "\<forall>t\<in>set tools. \<not> otherFailure (look t)"
    and 2: "\<exists>t\<in>set tools. notFound (look t)" by blast+
  show "checkTools look tools =
        Some (ErrorString (''required tools missing: '' @
          concat (map (\<lambda>t. t @ '', '') (butlast (filter (\<lambda>t. notFound (look t)) tools))) @
          last (filter (\<lambda>t. notFound (look t)) tools)))"
    by (rule checkTools_missing(1) [OF 1 2])
  show "\<forall>t\<in>set tools. notFound (look t) \<longrightarrow>
         (\<exists>pre post. checkTools look tools = Some (ErrorString (pre @ t @ post)))"
    by (rule checkTools_missing(2) [OF 1 2])
next
  assume a: "(\<forall>t\<in>set pre. \<not> otherFailure (look t)) \<and> look t = Some err \<and> otherFailure (look t)"
  from a have 1: "\<forall>t\<in>set pre. \<not> otherFailure (look t)" by blast
  from a have 2: "look t = Some err" by blast
  from a have 3: "otherFailure (look t)" by blast
  show "checkTools look (pre @ t # rest) = Some err"
    by (rule checkTools_other [OF 1 2 3])
qed

text \<open>
  On the tools of the universe: all resolve; two are missing; all three are missing;
  one is missing and the next lookup fails for another reason.
\<close>

theorem checkTools_spec_witness:
  "checkTools (\<lambda>t. None) universeTools = None \<and>
   checkTools (\<lambda>t. if t = ''qemu-system-x86_64'' then None else Some (ExecError t ErrNotFound))
     universeTools = Some (ErrorString ''required tools missing: vde_switch, qemu-img'') \<and>
   checkTools (\<lambda>t. Some (ExecError t ErrNotFound)) universeTools =
     Some (ErrorString ''required tools missing: vde_switch, qemu-system-x86_64, qemu-img'') \<and>
   checkTools (\<lambda>t. if t = ''vde_switch'' then Some (ExecError t ErrNotFound)
                     else if t = ''qemu-system-x86_64'' then Some (SyscallError ''permission denied'')
                     else Some (SyscallError ''input/output error''))
     universeTools = Some (SyscallError ''permission denied'')"
proof (intro conjI)
  show "checkTools (\<lambda>t. None) universeTools = None"
    using checkTools_spec [where tools = universeTools and look = "\<lambda>t. None"] by simp
next
  let ?look = "\<lambda>t. if t = ''qemu-system-x86_64'' then None else Some (ExecError t ErrNotFound)"
  have 1: "\<forall>t\<in>set universeTools. \<not> otherFailure (?look t)"
    by (simp add: universeTools_def otherFailure_def notFound_def)
  have 2: "\<exists>t\<in>set universeTools. notFound (?look t)"
    by (simp add: universeTools_def notFound_def)
  from checkTools_spec [where tools = universeTools and look = ?look] 1 2
  have "checkTools ?look universeTools =
      Some (ErrorString (''required tools missing: '' @
          concat (map (\<lambda>t. t @ '', '') (butlast (filter (\<lambda>t. notFound (?look t)) universeTools))) @
          last (filter (\<lambda>t. notFound (?look t)) universeTools)))"
    by blast
  also have "\<dots> = Some (ErrorString ''required tools missing: vde_switch, qemu-img'')"
    by (simp add: universeTools_def notFound_def)
  finally show "checkTools ?look universeTools =
      Some (ErrorString ''required tools missing: vde_switch, qemu-img'')" .
next
  let ?look = "\<lambda>t. Some (ExecError t ErrNotFound)"
  have 1: "\<forall>t\<in>set universeTools. \<not> otherFailure (?look t)"
    by (simp add: otherFailure_def notFound_def)
  have 2: "\<exists>t\<in>set universeTools. notFound (?look t)"
    by (auto simp add: universeTools_def notFound_def)
  from checkTools_spec [where tools = universeTools and look = ?look] 1 2
  have "checkTools ?look universeTools =
      Some (ErrorString (''required tools missing: '' @
          concat (map (\<lambda>t. t @ '', '') (butlast (filter (\<lambda>t. notFound (?look t)) universeTools))) @
          last (filter (\<lambda>t. notFound (?look t)) universeTools)))"
    by blast
  also have "\<dots> =
      Some (ErrorString ''required tools missing: vde_switch, qemu-system-x86_64, qemu-img'')"
    by (simp add: universeTools_def notFound_def)
  finally show "checkTools ?look universeTools =
      Some (ErrorString ''required tools missing: vde_switch, qemu-system-x86_64, qemu-img'')" .
next
  let ?look = "\<lambda>t. if t = ''vde_switch'' then Some (ExecError t ErrNotFound)
                     else if t = ''qemu-system-x86_64'' then Some (SyscallError ''permission denied'')
                     else Some (SyscallError ''input/output error'')"
  show "checkTools ?look universeTools = Some (SyscallError ''permission denied'')"
    using checkTools_spec [where pre = "[''vde_switch'']" and look = ?look
        and t = "''qemu-system-x86_64''" and err = "SyscallError ''permission denied''"
        and rest = "[''qemu-img'']"]
    by (simp add: universeTools_def otherFailure_def notFound_def)
qed
section \<open>The address allocators\<close>

lemma make_copy_incr:
  assumes "src < length (heap w)" and "length (heap w ! src) = n"
    and "make_IP n w = (p, w1)"
  shows "incr_byte p i (copy_IP p src w1) =
     w\<lparr>heap := heap w @ [(heap w ! src)[i := (heap w ! src) ! i + 1]]\<rparr> \<and> p = length (heap w)"
  using assms
  by (auto simp add: make_IP_def alloc_def copy_IP_def incr_byte_def Let_def nth_append)

lemma ipv4_eq:
  assumes "nextIP4 u < length (heap w)" and "length (heap w ! nextIP4 u) = 4"
  shows "ipv4 w u =
    (nextIP4 u,
     w\<lparr>heap := heap w @ [(heap w ! nextIP4 u)[3 := (heap w ! nextIP4 u) ! 3 + 1]]\<rparr>,
     u\<lparr>nextIP4 := length (heap w)\<rparr>)"
proof -
  obtain p w1 where m: "make_IP 4 w = (p, w1)" by (cases "make_IP 4 w") auto
  from make_copy_incr [OF assms m, of 3] show ?thesis
    by (auto simp add: ipv4_def m Let_def)
qed

lemma ipv4_step:
  assumes ok: "cursors_ok w u" and eq: "ipv4 w u = (r, w1, u1)"
  shows "r = nextIP4 u" and "r < length (heap w)"
    and "heap w1 = heap w @ [(heap w ! r)[3 := (heap w ! r) ! 3 + 1]]"
    and "nextIP4 u1 = length (heap w)" and "nextIP6 u1 = nextIP6 u"
proof -
  from ok have a: "nextIP4 u < length (heap w)" and b: "length (heap w ! nextIP4 u) = 4"
    by (simp_all add: cursors_ok_def)
  from eq ipv4_eq [OF a b] have r: "r = nextIP4 u"
    and w1: "w1 = w\<lparr>heap := heap w @ [(heap w ! nextIP4 u)[3 := (heap w ! nextIP4 u) ! 3 + 1]]\<rparr>"
    and u1: "u1 = u\<lparr>nextIP4 := length (heap w)\<rparr>"
    by auto
  show "r = nextIP4 u" by (rule r)
  show "r < length (heap w)" using r a by simp
  show "heap w1 = heap w @ [(heap w ! r)[3 := (heap w ! r) ! 3 + 1]]" using w1 r by simp
  show "nextIP4 u1 = length (heap w)" using u1 by simp
  show "nextIP6 u1 = nextIP6 u" using u1 by simp
qed

lemma ipv4_cursors_ok:
  assumes ok: "cursors_ok w u" and eq: "ipv4 w u = (r, w1, u1)"
  shows "cursors_ok w1 u1"
proof -
  note s = ipv4_step [OF ok eq]
  from ok have "nextIP6 u < length (heap w)" "length (heap w ! nextIP6 u) = 16"
    by (simp_all add: cursors_ok_def)
  moreover from ok s(1) have "length (heap w ! r) = 4" by (simp add: cursors_ok_def)
  ultimately show ?thesis
    unfolding cursors_ok_def s(3) s(4) s(5) by (simp add: nth_append)
qed

lemma ipv4_frame:
  assumes ok: "cursors_ok w u" and eq: "ipv4 w u = (r, w1, u1)"
  shows "r < length (heap w) \<and> length (heap w) \<le> length (heap w1) \<and>
     (\<forall>a<length (heap w). heap w1 ! a = heap w ! a)"
proof -
  note s = ipv4_step [OF ok eq]
  show ?thesis unfolding s(3) using s(2) by (simp add: nth_append)
qed

lemma ipv6_eq:
  assumes "nextIP6 u < length (heap w)" and "length (heap w ! nextIP6 u) = 16"
  shows "ipv6 w u =
    (nextIP6 u,
     w\<lparr>heap := heap w @ [(heap w ! nextIP6 u)[15 := (heap w ! nextIP6 u) ! 15 + 1]]\<rparr>,
     u\<lparr>nextIP6 := length (heap w)\<rparr>)"
proof -
  obtain p w1 where m: "make_IP 16 w = (p, w1)" by (cases "make_IP 16 w") auto
  from make_copy_incr [OF assms m, of 15] show ?thesis
    by (auto simp add: ipv6_def m Let_def)
qed

lemma ipv6_step:
  assumes ok: "cursors_ok w u" and eq: "ipv6 w u = (r, w1, u1)"
  shows "r = nextIP6 u" and "r < length (heap w)"
    and "heap w1 = heap w @ [(heap w ! r)[15 := (heap w ! r) ! 15 + 1]]"
    and "nextIP6 u1 = length (heap w)" and "nextIP4 u1 = nextIP4 u"
proof -
  from ok have a: "nextIP6 u < length (heap w)" and b: "length (heap w ! nextIP6 u) = 16"
    by (simp_all add: cursors_ok_def)
  from eq ipv6_eq [OF a b] have r: "r = nextIP6 u"
    and w1: "w1 = w\<lparr>heap := heap w @ [(heap w ! nextIP6 u)[15 := (heap w ! nextIP6 u) ! 15 + 1]]\<rparr>"
    and u1: "u1 = u\<lparr>nextIP6 := length (heap w)\<rparr>"
    by auto
  show "r = nextIP6 u" by (rule r)
  show "r < length (heap w)" using r a by simp
  show "heap w1 = heap w @ [(heap w ! r)[15 := (heap w ! r) ! 15 + 1]]" using w1 r by simp
  show "nextIP6 u1 = length (heap w)" using u1 by simp
  show "nextIP4 u1 = nextIP4 u" using u1 by simp
qed

lemma ipv6_cursors_ok:
  assumes ok: "cursors_ok w u" and eq: "ipv6 w u = (r, w1, u1)"
  shows "cursors_ok w1 u1"
proof -
  note s = ipv6_step [OF ok eq]
  from ok have "nextIP4 u < length (heap w)" "length (heap w ! nextIP4 u) = 4"
    by (simp_all add: cursors_ok_def)
  moreover from ok s(1) have "length (heap w ! r) = 16" by (simp add: cursors_ok_def)
  ultimately show ?thesis
    unfolding cursors_ok_def s(3) s(4) s(5) by (simp add: nth_append)
qed

lemma ipv6_frame:
  assumes ok: "cursors_ok w u" and eq: "ipv6 w u = (r, w1, u1)"
  shows "r < length (heap w) \<and> length (heap w) \<le> length (heap w1) \<and>
     (\<forall>a<length (heap w). heap w1 ! a = heap w ! a)"
proof -
  note s = ipv6_step [OF ok eq]
  show ?thesis unfolding s(3) using s(2) by (simp add: nth_append)
qed

lemma allocs_frame:
  "cursors_ok w u \<Longrightarrow> allocs ks w u = (rs, w', u') \<Longrightarrow>
     cursors_ok w' u' \<and> length (heap w) \<le> length (heap w') \<and>
     (\<forall>a<length (heap w). heap w' ! a = heap w ! a) \<and>
     (\<forall>x\<in>set rs. fst x < length (heap w') \<and> heap w' ! fst x = snd x)"
proof (induction ks arbitrary: w u rs w' u')
  case Nil
  then show ?case by simp
next
  case (Cons k ks)
  obtain r w1 u1 where s1: "(if k then ipv4 w u else ipv6 w u) = (r, w1, u1)"
    by (cases "if k then ipv4 w u else ipv6 w u") auto
  obtain rs2 w2 u2 where s2: "allocs ks w1 u1 = (rs2, w2, u2)"
    by (cases "allocs ks w1 u1") auto
  from Cons.prems(2) s1 s2 have eq: "rs = (r, heap w1 ! r) # rs2" "w' = w2" "u' = u2"
    by simp_all
  have ok1: "cursors_ok w1 u1"
  proof (cases k)
    case True
    with s1 have "ipv4 w u = (r, w1, u1)" by simp
    then show ?thesis by (rule ipv4_cursors_ok [OF Cons.prems(1)])
  next
    case False
    with s1 have "ipv6 w u = (r, w1, u1)" by simp
    then show ?thesis by (rule ipv6_cursors_ok [OF Cons.prems(1)])
  qed
  have fr1: "r < length (heap w) \<and> length (heap w) \<le> length (heap w1) \<and>
     (\<forall>a<length (heap w). heap w1 ! a = heap w ! a)"
  proof (cases k)
    case True
    with s1 have "ipv4 w u = (r, w1, u1)" by simp
    then show ?thesis by (rule ipv4_frame [OF Cons.prems(1)])
  next
    case False
    with s1 have "ipv6 w u = (r, w1, u1)" by simp
    then show ?thesis by (rule ipv6_frame [OF Cons.prems(1)])
  qed
  have ih: "cursors_ok w2 u2 \<and> length (heap w1) \<le> length (heap w2) \<and>
     (\<forall>a<length (heap w1). heap w2 ! a = heap w1 ! a) \<and>
     (\<forall>x\<in>set rs2. fst x < length (heap w2) \<and> heap w2 ! fst x = snd x)"
    by (rule Cons.IH [OF ok1 s2])
  have r1: "r < length (heap w1)" using fr1 by simp
  have "r < length (heap w2) \<and> heap w2 ! r = heap w1 ! r" using ih r1 by simp
  moreover have "\<forall>a<length (heap w). heap w2 ! a = heap w ! a" using fr1 ih by simp
  moreover have "length (heap w) \<le> length (heap w2)" using fr1 ih by simp
  ultimately show ?case using eq ih by simp
qed

lemma ipv4s_spec:
  "cursors_ok w u \<Longrightarrow> ipv4s n w u = (rs, w', u') \<Longrightarrow>
     length rs = n \<and> cursors_ok w' u' \<and> length (heap w) \<le> length (heap w') \<and>
     (\<forall>a<length (heap w). heap w' ! a = heap w ! a) \<and>
     (\<forall>k<n. rs ! k < length (heap w') \<and>
        heap w' ! (rs ! k) = (heap w ! nextIP4 u)[3 := heap w ! nextIP4 u ! 3 + of_nat k]) \<and>
     heap w' ! nextIP4 u' = (heap w ! nextIP4 u)[3 := heap w ! nextIP4 u ! 3 + of_nat n]"
proof (induction n arbitrary: w u rs w' u')
  case 0
  then show ?case by simp
next
  case (Suc n)
  obtain r w1 u1 where s1: "ipv4 w u = (r, w1, u1)" by (cases "ipv4 w u") auto
  obtain rs2 w2 u2 where s2: "ipv4s n w1 u1 = (rs2, w2, u2)" by (cases "ipv4s n w1 u1") auto
  from Suc.prems(2) s1 s2 have eq: "rs = r # rs2" "w' = w2" "u' = u2" by simp_all
  note st = ipv4_step [OF Suc.prems(1) s1]
  have ok1: "cursors_ok w1 u1" by (rule ipv4_cursors_ok [OF Suc.prems(1) s1])
  note fr = ipv4_frame [OF Suc.prems(1) s1]
  note ih = Suc.IH [OF ok1 s2]
  define c where "c = heap w ! nextIP4 u"
  have len: "length c = 4" using Suc.prems(1) by (simp add: cursors_ok_def c_def)
  have c1: "heap w1 ! nextIP4 u1 = c[3 := c ! 3 + 1]"
    using st by (simp add: c_def)
  have upd: "\<And>k. (c[3 := c ! 3 + 1])[3 := c[3 := c ! 3 + 1] ! 3 + of_nat k]
      = c[3 := c ! 3 + of_nat (Suc k)]"
    using len by (simp add: ac_simps)
  have r0: "r < length (heap w2) \<and> heap w2 ! r = c"
    using fr ih st(1) by (simp add: c_def)
  have nth: "\<forall>k<Suc n. (r # rs2) ! k < length (heap w2) \<and>
        heap w2 ! ((r # rs2) ! k) = c[3 := c ! 3 + of_nat k]"
  proof (intro allI impI)
    fix k assume k: "k < Suc n"
    show "(r # rs2) ! k < length (heap w2) \<and>
        heap w2 ! ((r # rs2) ! k) = c[3 := c ! 3 + of_nat k]"
    proof (cases k)
      case 0
      then show ?thesis using r0 by simp
    next
      case (Suc j)
      with k have "j < n" by simp
      with ih have "rs2 ! j < length (heap w2) \<and>
        heap w2 ! (rs2 ! j) = (c[3 := c ! 3 + 1])[3 := c[3 := c ! 3 + 1] ! 3 + of_nat j]"
        by (simp add: c1)
      then show ?thesis using Suc upd by simp
    qed
  qed
  have last: "heap w2 ! nextIP4 u2 = c[3 := c ! 3 + of_nat (Suc n)]"
    using ih upd by (simp add: c1)
  have "length (heap w) \<le> length (heap w2)" using fr ih by simp
  moreover have "\<forall>a<length (heap w). heap w2 ! a = heap w ! a" using fr ih by simp
  moreover have "length (r # rs2) = Suc n" using ih by simp
  moreover have "cursors_ok w2 u2" using ih by simp
  ultimately show ?case using nth last unfolding eq c_def by blast
qed

lemma ipv6s_spec:
  "cursors_ok w u \<Longrightarrow> ipv6s n w u = (rs, w', u') \<Longrightarrow>
     length rs = n \<and> cursors_ok w' u' \<and> length (heap w) \<le> length (heap w') \<and>
     (\<forall>a<length (heap w). heap w' ! a = heap w ! a) \<and>
     (\<forall>k<n. rs ! k < length (heap w') \<and>
        heap w' ! (rs ! k) = (heap w ! nextIP6 u)[15 := heap w ! nextIP6 u ! 15 + of_nat k]) \<and>
     heap w' ! nextIP6 u' = (heap w ! nextIP6 u)[15 := heap w ! nextIP6 u ! 15 + of_nat n]"
proof (induction n arbitrary: w u rs w' u')
  case 0
  then show ?case by simp
next
  case (Suc n)
  obtain r w1 u1 where s1: "ipv6 w u = (r, w1, u1)" by (cases "ipv6 w u") auto
  obtain rs2 w2 u2 where s2: "ipv6s n w1 u1 = (rs2, w2, u2)" by (cases "ipv6s n w1 u1") auto
  from Suc.prems(2) s1 s2 have eq: "rs = r # rs2" "w' = w2" "u' = u2" by simp_all
  note st = ipv6_step [OF Suc.prems(1) s1]
  have ok1: "cursors_ok w1 u1" by (rule ipv6_cursors_ok [OF Suc.prems(1) s1])
  note fr = ipv6_frame [OF Suc.prems(1) s1]
  note ih = Suc.IH [OF ok1 s2]
  define c where "c = heap w ! nextIP6 u"
  have len: "length c = 16" using Suc.prems(1) by (simp add: cursors_ok_def c_def)
  have c1: "heap w1 ! nextIP6 u1 = c[15 := c ! 15 + 1]"
    using st by (simp add: c_def)
  have upd: "\<And>k. (c[15 := c ! 15 + 1])[15 := c[15 := c ! 15 + 1] ! 15 + of_nat k]
      = c[15 := c ! 15 + of_nat (Suc k)]"
    using len by (simp add: ac_simps)
  have r0: "r < length (heap w2) \<and> heap w2 ! r = c"
    using fr ih st(1) by (simp add: c_def)
  have nth: "\<forall>k<Suc n. (r # rs2) ! k < length (heap w2) \<and>
        heap w2 ! ((r # rs2) ! k) = c[15 := c ! 15 + of_nat k]"
  proof (intro allI impI)
    fix k assume k: "k < Suc n"
    show "(r # rs2) ! k < length (heap w2) \<and>
        heap w2 ! ((r # rs2) ! k) = c[15 := c ! 15 + of_nat k]"
    proof (cases k)
      case 0
      then show ?thesis using r0 by simp
    next
      case (Suc j)
      with k have "j < n" by simp
      with ih have "rs2 ! j < length (heap w2) \<and>
        heap w2 ! (rs2 ! j) = (c[15 := c ! 15 + 1])[15 := c[15 := c ! 15 + 1] ! 15 + of_nat j]"
        by (simp add: c1)
      then show ?thesis using Suc upd by simp
    qed
  qed
  have last: "heap w2 ! nextIP6 u2 = c[15 := c ! 15 + of_nat (Suc n)]"
    using ih upd by (simp add: c1)
  have "length (heap w) \<le> length (heap w2)" using fr ih by simp
  moreover have "\<forall>a<length (heap w). heap w2 ! a = heap w ! a" using fr ih by simp
  moreover have "length (r # rs2) = Suc n" using ih by simp
  moreover have "cursors_ok w2 u2" using ih by simp
  ultimately show ?case using nth last unfolding eq c_def by blast
qed

lemma New_success:
  assumes "New sys w0 = (w, Some u, None)"
  shows "cursors_ok w u" and "heap w ! nextIP4 u = ip4_172_20_0_1"
    and "heap w ! nextIP6 u = ip6_fd00_1" and "portGen w = Offering 50000"
    and "\<not> portsClosed w" and "lifetime w = Some False" and "parentDone w = parentDone w0"
    and "\<not> closed u"
  using assms
  by (auto simp: New_def Let_def alloc_def cursors_ok_def nth_append ip4_172_20_0_1_def
      ip6_fd00_1_def split: option.splits sum.splits prod.splits)

lemma unat_byte_succ: "k < 255 \<Longrightarrow> unat (1 + word_of_nat k :: byte) = 1 + k"
  by (simp add: unat_word_ariths unat_of_nat)

lemma distinct_of_image:
  assumes "map f xs = map g [0..<n]" and "inj g"
  shows "distinct xs"
proof -
  have "distinct (map g [0..<n])" using assms(2) by (simp add: distinct_map inj_on_def inj_def)
  with assms(1) have "distinct (map f xs)" by simp
  then show ?thesis by (simp add: distinct_map)
qed

lemma checkTools_sample: "checkTools (\<lambda>tool. None) universeTools = None"
  by (simp add: checkTools_def universeTools_def)

lemma Join_sample: "filepath_Join ''/tmp/virtuakube042'' ''switch'' = ''/tmp/virtuakube042/switch''"
  by (simp add: filepath_Join_def filepath_Clean_def)

lemma New_sample: "New sample_os sample_world = (sample_fresh, Some sample_universe, None)"
  by (simp add: New_def sample_os_def checkTools_sample sample_world_def sample_fresh_def
      sample_universe_def alloc_def Join_sample Let_def)

lemma cursors_ok_sample: "cursors_ok sample_fresh sample_universe"
  by (simp add: cursors_ok_def sample_fresh_def sample_universe_def ip4_172_20_0_1_def
      ip6_fd00_1_def)

lemma cursors_ok_sample_last: "cursors_ok sample_last sample_universe"
  by (simp add: cursors_ok_def sample_last_def sample_fresh_def sample_universe_def)

lemma allocs_cursors_apart:
  "cursors_ok w u \<Longrightarrow> allocs ks w u = (rs, w', u') \<Longrightarrow>
     (\<forall>a<length (heap w). a \<noteq> nextIP4 u \<and> a \<noteq> nextIP6 u \<longrightarrow>
        a \<noteq> nextIP4 u' \<and> a \<noteq> nextIP6 u') \<and>
     (\<forall>x\<in>set rs. fst x \<noteq> nextIP4 u' \<and> fst x \<noteq> nextIP6 u')"
proof (induction ks arbitrary: w u rs w' u')
  case Nil
  then show ?case by simp
next
  case (Cons k ks)
  obtain r w1 u1 where s1: "(if k then ipv4 w u else ipv6 w u) = (r, w1, u1)"
    by (cases "if k then ipv4 w u else ipv6 w u") auto
  obtain rs2 w2 u2 where s2: "allocs ks w1 u1 = (rs2, w2, u2)"
    by (cases "allocs ks w1 u1") auto
  from Cons.prems(2) s1 s2 have eq: "rs = (r, heap w1 ! r) # rs2" "w' = w2" "u' = u2"
    by simp_all
  from Cons.prems(1) have apart: "nextIP4 u \<noteq> nextIP6 u"
    by (auto simp: cursors_ok_def)
  have one: "cursors_ok w1 u1 \<and> r < length (heap w) \<and> length (heap w) \<le> length (heap w1) \<and>
      r \<noteq> nextIP4 u1 \<and> r \<noteq> nextIP6 u1 \<and>
      (\<forall>a<length (heap w). a \<noteq> nextIP4 u \<and> a \<noteq> nextIP6 u \<longrightarrow>
        a \<noteq> nextIP4 u1 \<and> a \<noteq> nextIP6 u1)"
  proof (cases k)
    case True
    with s1 have i: "ipv4 w u = (r, w1, u1)" by simp
    note st = ipv4_step [OF Cons.prems(1) i]
    have "length (heap w) \<le> length (heap w1)" unfolding st(3) by simp
    then show ?thesis
      using ipv4_cursors_ok [OF Cons.prems(1) i] st(1) st(2) st(4) st(5) apart by simp
  next
    case False
    with s1 have i: "ipv6 w u = (r, w1, u1)" by simp
    note st = ipv6_step [OF Cons.prems(1) i]
    have "length (heap w) \<le> length (heap w1)" unfolding st(3) by simp
    then show ?thesis
      using ipv6_cursors_ok [OF Cons.prems(1) i] st(1) st(2) st(4) st(5) apart by simp
  qed
  then have ok1: "cursors_ok w1 u1" by simp
  note ih = Cons.IH [OF ok1 s2]
  have r1: "r < length (heap w1)" using one by simp
  have "r \<noteq> nextIP4 u2 \<and> r \<noteq> nextIP6 u2" using ih r1 one by blast
  moreover have "\<forall>a<length (heap w). a \<noteq> nextIP4 u \<and> a \<noteq> nextIP6 u \<longrightarrow>
        a \<noteq> nextIP4 u2 \<and> a \<noteq> nextIP6 u2"
  proof (intro allI impI)
    fix a assume a: "a < length (heap w)" and b: "a \<noteq> nextIP4 u \<and> a \<noteq> nextIP6 u"
    then have "a < length (heap w1)" and "a \<noteq> nextIP4 u1 \<and> a \<noteq> nextIP6 u1"
      using one by auto
    then show "a \<noteq> nextIP4 u2 \<and> a \<noteq> nextIP6 u2" using ih by blast
  qed
  ultimately show ?case using eq ih by simp
qed

lemma allocs_sample:
  "allocs [True, False, True, True] sample_fresh sample_universe =
      ([(0, [172, 20, 0, 1]),
       (1, [253, 0, 0, 0, 0, 0, 0, 0, 0, 0, 0, 0, 0, 0, 0, 1]),
       (2, [172, 20, 0, 2]), (4, [172, 20, 0, 3])],
      sample_fresh\<lparr>heap := [[172, 20, 0, 1], [253, 0, 0, 0, 0, 0, 0, 0, 0, 0, 0, 0, 0, 0, 0, 1],
         [172, 20, 0, 2], [253, 0, 0, 0, 0, 0, 0, 0, 0, 0, 0, 0, 0, 0, 0, 2], [172, 20, 0, 3],
         [172, 20, 0, 4]]\<rparr>,
      sample_universe\<lparr>nextIP4 := 5, nextIP6 := 3\<rparr>)"
  by (simp add: ipv4_eq ipv6_eq sample_fresh_def sample_universe_def ip4_172_20_0_1_def
        ip6_fd00_1_def)

text \<open>
  C4. On a fresh universe (the state a successful \<^verbatim>\<open>New\<close> returns), for every
  \<open>N \<le> 255\<close>, the bound under which the last octet does not overflow, \<open>N\<close> calls of
  \<^verbatim>\<open>ipv4\<close> in sequence return 172.20.0.1, 172.20.0.2, ..., 172.20.0.N in this order:
  the last octet grows by exactly one from call to call, and the addresses are pairwise
  distinct. In the same way \<open>N\<close> calls of \<^verbatim>\<open>ipv6\<close> return fd00::1, ..., with the last
  byte growing by one. The addresses are read after all \<open>N\<close> calls, as their holder
  sees them.
\<close>

theorem fresh_addresses_sequential:
  assumes new: "New sys w0 = (w, Some u, None)" and n: "N \<le> 255"
  shows "(case ipv4s N w u of (rs, w', u') \<Rightarrow>
            map (\<lambda>r. map unat (heap w' ! r)) rs = map (\<lambda>i. [172, 20, 0, 1 + i]) [0..<N] \<and>
            distinct (map (\<lambda>r. heap w' ! r) rs)) \<and>
         (case ipv6s N w u of (rs, w', u') \<Rightarrow>
            map (\<lambda>r. map unat (heap w' ! r)) rs =
              map (\<lambda>i. [253, 0, 0, 0, 0, 0, 0, 0, 0, 0, 0, 0, 0, 0, 0, 1 + i]) [0..<N] \<and>
            distinct (map (\<lambda>r. heap w' ! r) rs))"
proof -
  note fresh = New_success [OF new]
  obtain rs w' u' where s4: "ipv4s N w u = (rs, w', u')" by (cases "ipv4s N w u") auto
  obtain qs v' t' where s6: "ipv6s N w u = (qs, v', t')" by (cases "ipv6s N w u") auto
  note a4 = ipv4s_spec [OF fresh(1) s4]
  note a6 = ipv6s_spec [OF fresh(1) s6]
  have m4: "map (\<lambda>r. map unat (heap w' ! r)) rs = map (\<lambda>i. [172, 20, 0, 1 + i]) [0..<N]"
  proof (rule nth_equalityI)
    show "length (map (\<lambda>r. map unat (heap w' ! r)) rs) = length (map (\<lambda>i. [172, 20, 0, 1 + i]) [0..<N])"
      using a4 by simp
  next
    fix k assume "k < length (map (\<lambda>r. map unat (heap w' ! r)) rs)"
    then have k: "k < N" using a4 by simp
    then have "heap w' ! (rs ! k) = [172, 20, 0, 1 + word_of_nat k]"
      using a4 fresh(2) by (simp add: ip4_172_20_0_1_def)
    moreover have "unat (1 + word_of_nat k :: byte) = 1 + k"
      using k n by (simp add: unat_byte_succ)
    ultimately show "map (\<lambda>r. map unat (heap w' ! r)) rs ! k = map (\<lambda>i. [172, 20, 0, 1 + i]) [0..<N] ! k"
      using k a4 by simp
  qed
  have m6: "map (\<lambda>r. map unat (heap v' ! r)) qs =
      map (\<lambda>i. [253, 0, 0, 0, 0, 0, 0, 0, 0, 0, 0, 0, 0, 0, 0, 1 + i]) [0..<N]"
  proof (rule nth_equalityI)
    show "length (map (\<lambda>r. map unat (heap v' ! r)) qs) =
      length (map (\<lambda>i. [253, 0, 0, 0, 0, 0, 0, 0, 0, 0, 0, 0, 0, 0, 0, 1 + i]) [0..<N])"
      using a6 by simp
  next
    fix k assume "k < length (map (\<lambda>r. map unat (heap v' ! r)) qs)"
    then have k: "k < N" using a6 by simp
    then have "heap v' ! (qs ! k) = [253, 0, 0, 0, 0, 0, 0, 0, 0, 0, 0, 0, 0, 0, 0, 1 + word_of_nat k]"
      using a6 fresh(3) by (simp add: ip6_fd00_1_def)
    moreover have "unat (1 + word_of_nat k :: byte) = 1 + k"
      using k n by (simp add: unat_byte_succ)
    ultimately show "map (\<lambda>r. map unat (heap v' ! r)) qs ! k =
      map (\<lambda>i. [253, 0, 0, 0, 0, 0, 0, 0, 0, 0, 0, 0, 0, 0, 0, 1 + i]) [0..<N] ! k"
      using k a6 by simp
  qed
  have d4: "distinct (map (\<lambda>r. heap w' ! r) rs)"
  proof (rule distinct_of_image [where f = "map unat" and g = "\<lambda>i. [172, 20, 0, 1 + i]"])
    show "map (map unat) (map (\<lambda>r. heap w' ! r) rs) = map (\<lambda>i. [172, 20, 0, 1 + i]) [0..<N]"
      using m4 by (simp add: comp_def)
    show "inj (\<lambda>i::nat. [172, 20, 0, 1 + i])" by (simp add: inj_def)
  qed
  have d6: "distinct (map (\<lambda>r. heap v' ! r) qs)"
  proof (rule distinct_of_image [where f = "map unat"
        and g = "\<lambda>i. [253, 0, 0, 0, 0, 0, 0, 0, 0, 0, 0, 0, 0, 0, 0, 1 + i]"])
    show "map (map unat) (map (\<lambda>r. heap v' ! r) qs) =
        map (\<lambda>i. [253, 0, 0, 0, 0, 0, 0, 0, 0, 0, 0, 0, 0, 0, 0, 1 + i]) [0..<N]"
      using m6 by (simp add: comp_def)
    show "inj (\<lambda>i::nat. [253, 0, 0, 0, 0, 0, 0, 0, 0, 0, 0, 0, 0, 0, 0, 1 + i])"
      by (simp add: inj_def)
  qed
  show ?thesis using m4 d4 m6 d6 by (simp add: s4 s6)
qed

text \<open>Three addresses of each family from the sample universe.\<close>

theorem fresh_addresses_sequential_witness:
  "New sample_os sample_world = (sample_fresh, Some sample_universe, None) \<and>
   (case ipv4s 3 sample_fresh sample_universe of (rs, w', u') \<Rightarrow>
      map (\<lambda>r. map unat (heap w' ! r)) rs = [[172, 20, 0, 1], [172, 20, 0, 2], [172, 20, 0, 3]] \<and>
      distinct (map (\<lambda>r. heap w' ! r) rs)) \<and>
   (case ipv6s 3 sample_fresh sample_universe of (rs, w', u') \<Rightarrow>
      map (\<lambda>r. map unat (heap w' ! r)) rs =
        [[253, 0, 0, 0, 0, 0, 0, 0, 0, 0, 0, 0, 0, 0, 0, 1],
         [253, 0, 0, 0, 0, 0, 0, 0, 0, 0, 0, 0, 0, 0, 0, 2],
         [253, 0, 0, 0, 0, 0, 0, 0, 0, 0, 0, 0, 0, 0, 0, 3]] \<and>
      distinct (map (\<lambda>r. heap w' ! r) rs))"
proof -
  have u: "[0..<3] = [0, 1, 2::nat]" by code_simp
  show ?thesis
    using fresh_addresses_sequential [OF New_sample, of 3] New_sample
    by (simp add: u split: prod.splits)
qed

text \<open>
  C9. An address returned by \<^verbatim>\<open>ipv4\<close> or \<^verbatim>\<open>ipv6\<close> is safe to keep: after any
  sequence of calls of the two allocators, every slice returned on the way still refers
  to an array of the heap that holds the bytes it held when it was returned, and it is
  neither of the arrays the cursors now refer to (the cursor advances on a fresh copy).
\<close>

theorem returned_address_never_mutated:
  assumes "cursors_ok w u" and "allocs ks w u = (rs, w', u')"
  shows "\<forall>x\<in>set rs. fst x < length (heap w') \<and> heap w' ! fst x = snd x \<and>
           fst x \<noteq> nextIP4 u' \<and> fst x \<noteq> nextIP6 u'"
  using allocs_frame [OF assms] allocs_cursors_apart [OF assms] by blast

text \<open>Four calls on the sample universe: the slices returned and what they hold at the end.\<close>

theorem returned_address_never_mutated_witness:
  "cursors_ok sample_fresh sample_universe \<and>
   (case allocs [True, False, True, True] sample_fresh sample_universe of (rs, w', u') \<Rightarrow>
      rs = [(0, [172, 20, 0, 1]),
            (1, [253, 0, 0, 0, 0, 0, 0, 0, 0, 0, 0, 0, 0, 0, 0, 1]),
            (2, [172, 20, 0, 2]), (4, [172, 20, 0, 3])] \<and>
      map (\<lambda>x. heap w' ! fst x) rs = map snd rs \<and>
      nextIP4 u' = 5 \<and> nextIP6 u' = 3)"
  using returned_address_never_mutated [OF cursors_ok_sample allocs_sample] cursors_ok_sample
  unfolding allocs_sample by simp

text \<open>
  C10. The cursors advance modulo 256 on the last byte only. From any state whose
  cursors are 4 and 16 bytes long, a call returns the cursor's bytes and leaves a cursor
  that differs in the last byte alone, which is the old one plus one modulo 256: 255
  becomes 0. So no call fails, and of 257 calls in sequence the last returns the very
  address the first returned, 255 further calls having come between them.
\<close>

theorem cursor_advance_wraps:
  assumes ok: "cursors_ok w u"
  shows "(case ipv4 w u of (r, w1, u1) \<Rightarrow>
            heap w1 ! r = heap w ! nextIP4 u \<and>
            heap w1 ! nextIP4 u1 = (heap w ! nextIP4 u)[3 := heap w ! nextIP4 u ! 3 + 1] \<and>
            unat (heap w1 ! nextIP4 u1 ! 3) = (unat (heap w ! nextIP4 u ! 3) + 1) mod 256 \<and>
            (heap w ! nextIP4 u ! 3 = 255 \<longrightarrow> heap w1 ! nextIP4 u1 ! 3 = 0)) \<and>
         (case ipv4s 257 w u of (rs, w', u') \<Rightarrow>
            length rs = 257 \<and> heap w' ! (rs ! 256) = heap w' ! (rs ! 0)) \<and>
         (case ipv6 w u of (r, w1, u1) \<Rightarrow>
            heap w1 ! r = heap w ! nextIP6 u \<and>
            heap w1 ! nextIP6 u1 = (heap w ! nextIP6 u)[15 := heap w ! nextIP6 u ! 15 + 1] \<and>
            unat (heap w1 ! nextIP6 u1 ! 15) = (unat (heap w ! nextIP6 u ! 15) + 1) mod 256 \<and>
            (heap w ! nextIP6 u ! 15 = 255 \<longrightarrow> heap w1 ! nextIP6 u1 ! 15 = 0)) \<and>
         (case ipv6s 257 w u of (rs, w', u') \<Rightarrow>
            length rs = 257 \<and> heap w' ! (rs ! 256) = heap w' ! (rs ! 0))"
proof -
  from ok have l4: "length (heap w ! nextIP4 u) = 4" and l6: "length (heap w ! nextIP6 u) = 16"
    by (simp_all add: cursors_ok_def)
  obtain r w1 u1 where s4: "ipv4 w u = (r, w1, u1)" by (cases "ipv4 w u") auto
  obtain q v1 t1 where s6: "ipv6 w u = (q, v1, t1)" by (cases "ipv6 w u") auto
  obtain rs w' u' where m4: "ipv4s 257 w u = (rs, w', u')" by (cases "ipv4s 257 w u") auto
  obtain qs v' t' where m6: "ipv6s 257 w u = (qs, v', t')" by (cases "ipv6s 257 w u") auto
  note st4 = ipv4_step [OF ok s4]
  note st6 = ipv6_step [OF ok s6]
  have a: "heap w1 ! r = heap w ! nextIP4 u" using st4 by (simp add: nth_append)
  have b: "heap w1 ! nextIP4 u1 = (heap w ! nextIP4 u)[3 := heap w ! nextIP4 u ! 3 + 1]"
    using st4 by simp
  have c: "heap w1 ! nextIP4 u1 ! 3 = heap w ! nextIP4 u ! 3 + 1"
    using b l4 by simp
  have d: "unat (heap w1 ! nextIP4 u1 ! 3) = (unat (heap w ! nextIP4 u ! 3) + 1) mod 256"
    unfolding c by (simp add: unat_word_ariths)
  have a6: "heap v1 ! q = heap w ! nextIP6 u" using st6 by (simp add: nth_append)
  have b6: "heap v1 ! nextIP6 t1 = (heap w ! nextIP6 u)[15 := heap w ! nextIP6 u ! 15 + 1]"
    using st6 by simp
  have c6: "heap v1 ! nextIP6 t1 ! 15 = heap w ! nextIP6 u ! 15 + 1"
    using b6 l6 by simp
  have d6: "unat (heap v1 ! nextIP6 t1 ! 15) = (unat (heap w ! nextIP6 u ! 15) + 1) mod 256"
    unfolding c6 by (simp add: unat_word_ariths)
  note n4 = ipv4s_spec [OF ok m4]
  note n6 = ipv6s_spec [OF ok m6]
  have z: "\<And>x::byte. x + 256 = x"
  proof -
    fix x :: byte
    have "(256 :: byte) = 0" by simp
    then show "x + 256 = x" by (simp only: add_0_right)
  qed
  have p4: "length rs = 257 \<and> heap w' ! (rs ! 256) = heap w' ! (rs ! 0)"
    using n4 by (simp add: z)
  have p6: "length qs = 257 \<and> heap v' ! (qs ! 256) = heap v' ! (qs ! 0)"
    using n6 by (simp add: z)
  have e: "heap w ! nextIP4 u ! 3 = 255 \<longrightarrow> heap w1 ! nextIP4 u1 ! 3 = 0"
    unfolding c by simp
  have e6: "heap w ! nextIP6 u ! 15 = 255 \<longrightarrow> heap v1 ! nextIP6 t1 ! 15 = 0"
    unfolding c6 by simp
  show ?thesis
    unfolding s4 s6 m4 m6 prod.case
    using a b d e a6 b6 d6 e6 p4 p6 by blast
qed

text \<open>The sample universe with both cursors at 255: the next cursors end in 0.\<close>

theorem cursor_advance_wraps_witness:
  "cursors_ok sample_last sample_universe \<and>
   (case ipv4 sample_last sample_universe of (r, w1, u1) \<Rightarrow>
      heap w1 ! r = [172, 20, 0, 255] \<and> heap w1 ! nextIP4 u1 = [172, 20, 0, 0]) \<and>
   (case ipv4s 257 sample_last sample_universe of (rs, w', u') \<Rightarrow>
      length rs = 257 \<and> heap w' ! (rs ! 256) = heap w' ! (rs ! 0)) \<and>
   (case ipv6 sample_last sample_universe of (r, w1, u1) \<Rightarrow>
      heap w1 ! r = [253, 0, 0, 0, 0, 0, 0, 0, 0, 0, 0, 0, 0, 0, 0, 255] \<and>
      heap w1 ! nextIP6 u1 = [253, 0, 0, 0, 0, 0, 0, 0, 0, 0, 0, 0, 0, 0, 0, 0]) \<and>
   (case ipv6s 257 sample_last sample_universe of (rs, w', u') \<Rightarrow>
      length rs = 257 \<and> heap w' ! (rs ! 256) = heap w' ! (rs ! 0))"
proof -
  have h4: "heap sample_last ! nextIP4 sample_universe = [172, 20, 0, 255]"
    and h6: "heap sample_last ! nextIP6 sample_universe =
      [253, 0, 0, 0, 0, 0, 0, 0, 0, 0, 0, 0, 0, 0, 0, 255]"
    by (simp_all add: sample_last_def sample_fresh_def sample_universe_def)
  show ?thesis
    using cursor_advance_wraps [OF cursors_ok_sample_last] cursors_ok_sample_last
    by (simp add: h4 h6 split: prod.splits)
qed

section \<open>Teardown\<close>

lemma Close_first:
  assumes "\<not> closed u"
  shows "Close sys w u =
    (fst (os_RemoveAll sys (files w) (tmpdir u)),
     w\<lparr>lifetime := map_option (\<lambda>c. True) (lifetime w),
       files := snd (os_RemoveAll sys (files w) (tmpdir u)),
       trace := trace w @ [Shutdown, RemoveAllCall (tmpdir u)]\<rparr>,
     u\<lparr>closed := True, closeErr := fst (os_RemoveAll sys (files w) (tmpdir u))\<rparr>)"
  using assms by (simp add: Close_def shutdown_def Let_def split: prod.splits)

lemma Close_again: "closed u \<Longrightarrow> Close sys w u = (closeErr u, w, u)"
  by (simp add: Close_def)

lemma ipv4_shape:
  "\<exists>h. ipv4 w u = (nextIP4 u, w\<lparr>heap := h\<rparr>, u\<lparr>nextIP4 := length (heap w)\<rparr>)"
  by (simp add: ipv4_def make_IP_def alloc_def copy_IP_def incr_byte_def Let_def)
    (rule exI, rule refl)

lemma ipv6_shape:
  "\<exists>h. ipv6 w u = (nextIP6 u, w\<lparr>heap := h\<rparr>, u\<lparr>nextIP6 := length (heap w)\<rparr>)"
  by (simp add: ipv6_def make_IP_def alloc_def copy_IP_def incr_byte_def Let_def)
    (rule exI, rule refl)

lemma teardownEvents_append [simp]:
  "teardownEvents (xs @ ys) = teardownEvents xs @ teardownEvents ys"
  by (simp add: teardownEvents_def)

lemma step_closed:
  assumes "closed u" and "step sys x (w, u) = (w', u')"
  shows "closed u' \<and> closeErr u' = closeErr u \<and>
         teardownEvents (trace w') = teardownEvents (trace w)"
proof (cases x)
  case CallIPv4
  obtain h where "ipv4 w u = (nextIP4 u, w\<lparr>heap := h\<rparr>, u\<lparr>nextIP4 := length (heap w)\<rparr>)"
    using ipv4_shape by blast
  with assms CallIPv4 show ?thesis by auto
next
  case CallIPv6
  obtain h where "ipv6 w u = (nextIP6 u, w\<lparr>heap := h\<rparr>, u\<lparr>nextIP6 := length (heap w)\<rparr>)"
    using ipv6_shape by blast
  with assms CallIPv6 show ?thesis by auto
next
  case (CallTmpdir pre)
  with assms show ?thesis
    by (auto simp: Tmpdir_def teardownEvents_def split: sum.splits)
next
  case (Receive pick)
  with assms show ?thesis
    by (auto simp: recvPort_def split: portgen.splits if_splits)
next
  case PortGenRuns
  with assms show ?thesis
    by (auto simp: portGenRuns_def split: portgen.splits if_splits)
next
  case (CallWait pick cd)
  with assms show ?thesis by (auto simp: Wait_def split: if_splits)
qed (use assms in \<open>auto simp: Close_again split: if_splits\<close>)

lemma run_closed:
  "closed u \<Longrightarrow> run sys ops (w, u) = (w', u') \<Longrightarrow>
     closed u' \<and> closeErr u' = closeErr u \<and>
     teardownEvents (trace w') = teardownEvents (trace w)"
proof (induction ops arbitrary: w u)
  case Nil
  then show ?case by simp
next
  case (Cons x xs)
  obtain w1 u1 where s: "step sys x (w, u) = (w1, u1)" by (cases "step sys x (w, u)") auto
  note a = step_closed [OF Cons.prems(1) s]
  from Cons.prems(2) s have r: "run sys xs (w1, u1) = (w', u')" by simp
  from a have c1: "closed u1" by simp
  note b = Cons.IH [OF c1 r]
  show ?case using a b by simp
qed

text \<open>
  C1. \<^verbatim>\<open>Close\<close> is idempotent with a recorded outcome. The first call (on a
  universe not yet closed) calls the \<^verbatim>\<open>CancelFunc\<close> of the lifetime context and then
  \<^verbatim>\<open>os.RemoveAll\<close> on the workspace directory, in this order, records the result of
  the removal and returns it. After any further operations on the universe, by any
  goroutine (explicit calls of \<^verbatim>\<open>Close\<close>, the two watchers calling it, allocations,
  receives, waits), a call of \<^verbatim>\<open>Close\<close> returns that same result and changes
  nothing, and no further cancellation or removal has been made.
\<close>

theorem Close_idempotent:
  assumes first: "\<not> closed u" and c: "Close sys w u = (err, w1, u1)"
    and later: "run sys ops (w1, u1) = (w2, u2)"
  shows "err = fst (os_RemoveAll sys (files w) (tmpdir u)) \<and>
         trace w1 = trace w @ [Shutdown, RemoveAllCall (tmpdir u)] \<and>
         (lifetime w \<noteq> None \<longrightarrow> ctxDone w1) \<and>
         files w1 = snd (os_RemoveAll sys (files w) (tmpdir u)) \<and>
         closed u1 \<and> closeErr u1 = err \<and>
         Close sys w2 u2 = (err, w2, u2) \<and>
         teardownEvents (trace w2) = teardownEvents (trace w1)"
proof -
  from c Close_first [OF first, of sys w]
  have e: "err = fst (os_RemoveAll sys (files w) (tmpdir u))"
    and w1: "w1 = w\<lparr>lifetime := map_option (\<lambda>c. True) (lifetime w),
       files := snd (os_RemoveAll sys (files w) (tmpdir u)),
       trace := trace w @ [Shutdown, RemoveAllCall (tmpdir u)]\<rparr>"
    and u1: "u1 = u\<lparr>closed := True, closeErr := fst (os_RemoveAll sys (files w) (tmpdir u))\<rparr>"
    by auto
  have cl: "closed u1" and ce: "closeErr u1 = err" using u1 e by simp_all
  note r = run_closed [OF cl later]
  have again: "Close sys w2 u2 = (err, w2, u2)" using r ce by (simp add: Close_again)
  have dn: "lifetime w \<noteq> None \<longrightarrow> ctxDone w1" using w1 by (auto simp: ctxDone_def)
  have tr: "trace w1 = trace w @ [Shutdown, RemoveAllCall (tmpdir u)]" using w1 by simp
  have fl: "files w1 = snd (os_RemoveAll sys (files w) (tmpdir u))" using w1 by simp
  show ?thesis using e tr dn fl cl ce again r by blast
qed

text \<open>
  A first \<^verbatim>\<open>Close\<close> whose removal fails, then the switch exits, both watchers run,
  and \<^verbatim>\<open>Close\<close> is called again: every call gives the recorded error.
\<close>

theorem Close_idempotent_witness:
  "\<not> closed sample_universe \<and>
   (case Close sample_os_stuck sample_fresh sample_universe of (err, w1, u1) \<Rightarrow>
      err = Some (SyscallError ''unlinkat: permission denied'') \<and>
      trace w1 = trace sample_fresh @ [Shutdown, RemoveAllCall ''/tmp/virtuakube042''] \<and>
      (case run sample_os_stuck
             [SwitchExits, SwitchWatcherRuns, CtxWatcherRuns, CallClose, CallIPv4] (w1, u1) of
         (w2, u2) \<Rightarrow>
           Close sample_os_stuck w2 u2 =
             (Some (SyscallError ''unlinkat: permission denied''), w2, u2) \<and>
           teardownEvents (trace w2) = [Shutdown, RemoveAllCall ''/tmp/virtuakube042'']))"
proof -
  have nc: "\<not> closed sample_universe" by (simp add: sample_universe_def)
  obtain err w1 u1 where c: "Close sample_os_stuck sample_fresh sample_universe = (err, w1, u1)"
    by (cases "Close sample_os_stuck sample_fresh sample_universe") auto
  obtain w2 u2 where r: "run sample_os_stuck
      [SwitchExits, SwitchWatcherRuns, CtxWatcherRuns, CallClose, CallIPv4] (w1, u1) = (w2, u2)"
    by (cases "run sample_os_stuck
      [SwitchExits, SwitchWatcherRuns, CtxWatcherRuns, CallClose, CallIPv4] (w1, u1)") auto
  note t = Close_idempotent [OF nc c r]
  have e: "err = Some (SyscallError ''unlinkat: permission denied'')"
    using t by (simp add: sample_os_stuck_def sample_os_def)
  have tr: "trace w1 = trace sample_fresh @ [Shutdown, RemoveAllCall ''/tmp/virtuakube042'']"
    using t by (simp add: sample_universe_def)
  have td: "teardownEvents (trace w2) = [Shutdown, RemoveAllCall ''/tmp/virtuakube042'']"
    using t tr by (simp add: teardownEvents_def sample_fresh_def)
  have ag: "Close sample_os_stuck w2 u2 =
             (Some (SyscallError ''unlinkat: permission denied''), w2, u2)"
    using t e by simp
  show ?thesis unfolding c prod.case r using nc e tr td ag by blast
qed

section \<open>Construction\<close>

lemma checkTools_notFound:
  assumes "\<exists>t\<in>set tools. notFound (look t)"
  shows "\<exists>err. checkTools look tools = Some err"
proof (cases "\<forall>t\<in>set tools. \<not> otherFailure (look t)")
  case True
  from assms have "filter (\<lambda>t. notFound (look t)) tools \<noteq> []"
    by (auto simp: filter_empty_conv)
  with True show ?thesis by (simp add: checkTools_def checkTools_loop_no_other)
next
  case False
  then have "\<exists>t\<in>set tools. otherFailure (look t)" by simp
  from split_list_first_prop [OF this]
  obtain pre t rest where sp: "tools = pre @ t # rest" and t: "otherFailure (look t)"
    and pre: "\<forall>y\<in>set pre. \<not> otherFailure (look y)"
    by blast
  from t obtain err where e: "look t = Some err" by (auto simp: otherFailure_def)
  have "checkTools_loop look [] (pre @ t # rest) = Inl err"
    by (rule checkTools_loop_other [OF pre e t])
  then show ?thesis by (simp add: checkTools_def sp)
qed

lemma New_tools_fail:
  "checkTools (exec_LookPath sys) universeTools = Some err \<Longrightarrow> New sys w = (w, None, Some err)"
  by (simp add: New_def)

text \<open>
  C5, as amended. If one or more required tools are not found, \<^verbatim>\<open>New\<close> fails with the
  error of the tool check before any resource is made: it returns no universe and the
  world it was called in, unchanged (no temporary directory, no derived context, no
  process, no goroutine, nothing in the trace). When no lookup fails for another reason,
  that error is the one whose message lists every missing tool, in order, separated by
  a comma and a space, so that every missing tool's name stands in it. Otherwise it is
  the error of the first lookup that failed for another reason.
\<close>

theorem New_missing_tool:
  assumes "\<exists>t\<in>set universeTools. notFound (exec_LookPath sys t)"
  shows "(\<exists>err. checkTools (exec_LookPath sys) universeTools = Some err \<and>
            New sys w = (w, None, Some err)) \<and>
         ((\<forall>t\<in>set universeTools. \<not> otherFailure (exec_LookPath sys t)) \<longrightarrow>
            New sys w = (w, None, Some (ErrorString (''required tools missing: '' @
              concat (map (\<lambda>t. t @ '', '')
                (butlast (filter (\<lambda>t. notFound (exec_LookPath sys t)) universeTools))) @
              last (filter (\<lambda>t. notFound (exec_LookPath sys t)) universeTools)))) \<and>
            (\<forall>t\<in>set universeTools. notFound (exec_LookPath sys t) \<longrightarrow>
               (\<exists>pre post. New sys w = (w, None, Some (ErrorString (pre @ t @ post)))))) \<and>
         (\<forall>pre t rest err. universeTools = pre @ t # rest \<and>
              (\<forall>y\<in>set pre. \<not> otherFailure (exec_LookPath sys y)) \<and>
              exec_LookPath sys t = Some err \<and> otherFailure (exec_LookPath sys t)
            \<longrightarrow> New sys w = (w, None, Some err))"
proof (intro conjI impI allI)
  from checkTools_notFound [OF assms] obtain err
    where e: "checkTools (exec_LookPath sys) universeTools = Some err" by blast
  then show "\<exists>err. checkTools (exec_LookPath sys) universeTools = Some err \<and>
            New sys w = (w, None, Some err)"
    using New_tools_fail by blast
next
  assume no: "\<forall>t\<in>set universeTools. \<not> otherFailure (exec_LookPath sys t)"
  show "New sys w = (w, None, Some (ErrorString (''required tools missing: '' @
              concat (map (\<lambda>t. t @ '', '')
                (butlast (filter (\<lambda>t. notFound (exec_LookPath sys t)) universeTools))) @
              last (filter (\<lambda>t. notFound (exec_LookPath sys t)) universeTools))))"
    by (rule New_tools_fail [OF checkTools_missing(1) [OF no assms]])
next
  assume no: "\<forall>t\<in>set universeTools. \<not> otherFailure (exec_LookPath sys t)"
  show "\<forall>t\<in>set universeTools. notFound (exec_LookPath sys t) \<longrightarrow>
               (\<exists>pre post. New sys w = (w, None, Some (ErrorString (pre @ t @ post))))"
  proof (intro ballI impI)
    fix t assume "t \<in> set universeTools" and "notFound (exec_LookPath sys t)"
    with checkTools_missing(2) [OF no assms] obtain pre post
      where "checkTools (exec_LookPath sys) universeTools = Some (ErrorString (pre @ t @ post))"
      by blast
    then have "New sys w = (w, None, Some (ErrorString (pre @ t @ post)))"
      by (rule New_tools_fail)
    then show "\<exists>pre post. New sys w = (w, None, Some (ErrorString (pre @ t @ post)))" by blast
  qed
next
  fix pre t rest err
  assume a: "universeTools = pre @ t # rest \<and>
              (\<forall>y\<in>set pre. \<not> otherFailure (exec_LookPath sys y)) \<and>
              exec_LookPath sys t = Some err \<and> otherFailure (exec_LookPath sys t)"
  from a have 0: "universeTools = pre @ t # rest" by blast
  from a have 1: "\<forall>y\<in>set pre. \<not> otherFailure (exec_LookPath sys y)" by blast
  from a have 2: "exec_LookPath sys t = Some err" by blast
  from a have 3: "otherFailure (exec_LookPath sys t)" by blast
  have "checkTools (exec_LookPath sys) universeTools = Some err"
    unfolding 0 by (rule checkTools_other [OF 1 2 3])
  then show "New sys w = (w, None, Some err)" by (rule New_tools_fail)
qed

text \<open>
  Two tools missing: the error lists both. One tool missing and a later lookup failing
  for another reason: the error is that lookup's. In both the world is unchanged.
\<close>

theorem New_missing_tool_witness:
  "notFound (exec_LookPath sample_os_missing ''vde_switch'') \<and>
   New sample_os_missing sample_world =
     (sample_world, None, Some (ErrorString ''required tools missing: vde_switch, qemu-img'')) \<and>
   notFound (exec_LookPath sample_os_dot ''vde_switch'') \<and>
   New sample_os_dot sample_world =
     (sample_world, None,
      Some (ExecError ''qemu-img''
        (ErrorString ''cannot run executable found relative to current directory'')))"
proof -
  have m1: "\<exists>t\<in>set universeTools. notFound (exec_LookPath sample_os_missing t)"
    by (auto simp: sample_os_missing_def sample_os_def universeTools_def notFound_def)
  have m2: "\<forall>t\<in>set universeTools. \<not> otherFailure (exec_LookPath sample_os_missing t)"
    by (simp add: sample_os_missing_def sample_os_def universeTools_def notFound_def
        otherFailure_def)
  from New_missing_tool [OF m1, of sample_world] m2
  have "New sample_os_missing sample_world = (sample_world, None,
      Some (ErrorString (''required tools missing: '' @
              concat (map (\<lambda>t. t @ '', '')
                (butlast (filter (\<lambda>t. notFound (exec_LookPath sample_os_missing t)) universeTools))) @
              last (filter (\<lambda>t. notFound (exec_LookPath sample_os_missing t)) universeTools))))"
    by blast
  also have "\<dots> = (sample_world, None,
      Some (ErrorString ''required tools missing: vde_switch, qemu-img''))"
    by (simp add: sample_os_missing_def sample_os_def universeTools_def notFound_def)
  finally have a: "New sample_os_missing sample_world =
     (sample_world, None, Some (ErrorString ''required tools missing: vde_switch, qemu-img''))" .
  have d1: "\<exists>t\<in>set universeTools. notFound (exec_LookPath sample_os_dot t)"
    by (auto simp: sample_os_dot_def sample_os_def universeTools_def notFound_def)
  have d2: "universeTools = [''vde_switch'', ''qemu-system-x86_64''] @ ''qemu-img'' # [] \<and>
      (\<forall>y\<in>set [''vde_switch'', ''qemu-system-x86_64'']. \<not> otherFailure (exec_LookPath sample_os_dot y)) \<and>
      exec_LookPath sample_os_dot ''qemu-img'' = Some (ExecError ''qemu-img''
        (ErrorString ''cannot run executable found relative to current directory'')) \<and>
      otherFailure (exec_LookPath sample_os_dot ''qemu-img'')"
    by (simp add: sample_os_dot_def sample_os_def universeTools_def notFound_def otherFailure_def)
  from New_missing_tool [OF d1, of sample_world] d2
  have b: "New sample_os_dot sample_world =
     (sample_world, None,
      Some (ExecError ''qemu-img''
        (ErrorString ''cannot run executable found relative to current directory'')))"
    by blast
  have n1: "notFound (exec_LookPath sample_os_missing ''vde_switch'')"
    by (simp add: sample_os_missing_def sample_os_def notFound_def)
  have n2: "notFound (exec_LookPath sample_os_dot ''vde_switch'')"
    by (simp add: sample_os_dot_def sample_os_def notFound_def)
  show ?thesis using a b n1 n2 by blast
qed
text \<open>
  The claim as first stated promises the error that lists the missing tools whenever a
  tool is missing. Here \<^verbatim>\<open>vde_switch\<close> is missing and the lookup of \<^verbatim>\<open>qemu-img\<close>
  fails for another reason: \<^verbatim>\<open>New\<close> returns that lookup's error, which names no
  missing tool.
\<close>

theorem New_missing_tool_counterexample:
  "notFound (exec_LookPath sample_os_dot ''vde_switch'') \<and>
   New sample_os_dot sample_world =
     (sample_world, None,
      Some (ExecError ''qemu-img''
        (ErrorString ''cannot run executable found relative to current directory'')))"
  by (simp add: New_def checkTools_def sample_os_dot_def sample_os_def universeTools_def
      notFound_def)

text \<open>
  C7. If the tools resolve, the temporary directory \<open>p\<close> is made and starting the
  switch fails with \<open>err\<close>, then \<^verbatim>\<open>New\<close> runs \<^verbatim>\<open>Close\<close> on the universe built
  so far (not closed, with workspace \<open>p\<close> and a live lifetime context) before it
  returns: the trace ends with the cancellation and the removal of \<open>p\<close>, the context
  is cancelled, and no process or goroutine has been started. \<^verbatim>\<open>New\<close> returns no
  universe, and the error it returns is \<open>err\<close>, whatever the removal returned.
\<close>

theorem New_spawn_failure:
  assumes tools: "checkTools (exec_LookPath sys) universeTools = None"
    and dir: "ioutil_TempDir sys (files w) [] ''virtuakube'' = Inr p"
    and spawn: "cmd_Start sys [''vde_switch'', ''--sock'', filepath_Join p ''switch'', ''-m'', ''0600'']
                  = Some err"
  shows "\<exists>w'. New sys w = (w', None, Some err) \<and>
           trace w' = trace w @ [MkdirTemp p, WithCancel, Shutdown, RemoveAllCall p] \<and>
           lifetime w' = Some True \<and>
           files w' = snd (os_RemoveAll sys (p # files w) p) \<and>
           switchProc w' = switchProc w \<and> switchWatcher w' = switchWatcher w \<and>
           ctxWatcher w' = ctxWatcher w \<and> portGen w' = portGen w \<and>
           (\<exists>wp up e up'. \<not> closed up \<and> tmpdir up = p \<and> lifetime wp = Some False \<and>
              Close sys wp up = (e, w', up') \<and> closed up' \<and>
              e = fst (os_RemoveAll sys (p # files w) p))"
proof -
  define wp where "wp = w\<lparr>files := p # files w, lifetime := Some False,
      trace := trace w @ [MkdirTemp p, WithCancel],
      portsClosed := False, heap := heap w @ [ip4_172_20_0_1, ip6_fd00_1]\<rparr>"
  define up where "up = \<lparr>tmpdir = p, nextIP4 = length (heap w), nextIP6 = Suc (length (heap w)),
      vms = (\<lambda>h. None),
      swtch = [''vde_switch'', ''--sock'', filepath_Join p ''switch'', ''-m'', ''0600''],
      sock = filepath_Join p ''switch'', closed = False, closeErr = None\<rparr>"
  have nc: "\<not> closed up" and td: "tmpdir up = p" by (simp_all add: up_def)
  have lt: "lifetime wp = Some False" and fl: "files wp = p # files w"
    and tr: "trace wp = trace w @ [MkdirTemp p, WithCancel]"
    by (simp_all add: wp_def)
  obtain e w' up' where c: "Close sys wp up = (e, w', up')" by (cases "Close sys wp up") auto
  have new: "New sys w = (w', None, Some err)"
    using tools dir spawn c
    by (simp add: New_def Let_def alloc_def wp_def up_def)
  from c Close_first [OF nc, of sys wp]
  have e: "e = fst (os_RemoveAll sys (files wp) (tmpdir up))"
    and w': "w' = wp\<lparr>lifetime := map_option (\<lambda>c. True) (lifetime wp),
       files := snd (os_RemoveAll sys (files wp) (tmpdir up)),
       trace := trace wp @ [Shutdown, RemoveAllCall (tmpdir up)]\<rparr>"
    and up': "up' = up\<lparr>closed := True, closeErr := fst (os_RemoveAll sys (files wp) (tmpdir up))\<rparr>"
    by auto
  have 1: "trace w' = trace w @ [MkdirTemp p, WithCancel, Shutdown, RemoveAllCall p]"
    unfolding w' by (simp add: tr td)
  have 2: "lifetime w' = Some True" unfolding w' by (simp add: lt)
  have 3: "files w' = snd (os_RemoveAll sys (p # files w) p)" unfolding w' by (simp add: fl td)
  have 4: "switchProc w' = switchProc w \<and> switchWatcher w' = switchWatcher w \<and>
      ctxWatcher w' = ctxWatcher w \<and> portGen w' = portGen w"
    unfolding w' by (simp add: wp_def)
  have 5: "closed up'" unfolding up' by simp
  have 6: "e = fst (os_RemoveAll sys (p # files w) p)" using e by (simp add: fl td)
  have "\<exists>wp up e up'. \<not> closed up \<and> tmpdir up = p \<and> lifetime wp = Some False \<and>
              Close sys wp up = (e, w', up') \<and> closed up' \<and>
              e = fst (os_RemoveAll sys (p # files w) p)"
    using nc td lt c 5 6 by blast
  with new 1 2 3 4 show ?thesis by blast
qed

text \<open>
  The switch does not start and the removal fails too: the error returned is the one
  of the start.
\<close>

theorem New_spawn_failure_witness:
  "New sample_os_nostart sample_world =
     (sample_world\<lparr>lifetime := Some True, files := [''/tmp/virtuakube042''],
        heap := [ip4_172_20_0_1, ip6_fd00_1],
        trace := [MkdirTemp ''/tmp/virtuakube042'', WithCancel, Shutdown,
                  RemoveAllCall ''/tmp/virtuakube042'']\<rparr>,
      None,
      Some (ExecError ''vde_switch'' (SyscallError ''fork/exec: resource temporarily unavailable'')))"
proof -
  have "checkTools (exec_LookPath sample_os_nostart) universeTools = None"
    by (simp add: sample_os_nostart_def sample_os_stuck_def sample_os_def checkTools_sample)
  moreover have "ioutil_TempDir sample_os_nostart (files sample_world) [] ''virtuakube'' =
      Inr ''/tmp/virtuakube042''"
    by (simp add: sample_os_nostart_def sample_os_stuck_def sample_os_def)
  moreover have "cmd_Start sample_os_nostart
      [''vde_switch'', ''--sock'', filepath_Join ''/tmp/virtuakube042'' ''switch'', ''-m'', ''0600'']
      = Some (ExecError ''vde_switch'' (SyscallError ''fork/exec: resource temporarily unavailable''))"
    by (simp add: sample_os_nostart_def sample_os_stuck_def sample_os_def)
  ultimately obtain w' where
    "New sample_os_nostart sample_world = (w', None,
       Some (ExecError ''vde_switch'' (SyscallError ''fork/exec: resource temporarily unavailable'')))"
    using New_spawn_failure [of sample_os_nostart sample_world "''/tmp/virtuakube042''"]
    by blast
  then show ?thesis
    by (simp add: New_def Let_def alloc_def Close_first sample_os_nostart_def
        sample_os_stuck_def sample_os_def checkTools_sample sample_world_def Join_sample)
qed

section \<open>The port stream\<close>

lemma sint_port: 
  assumes "i < 9223372036854725808"
  shows "sint (50000 + word_of_nat i :: 64 word) = 50000 + int i"
proof -
  have "(50000 + word_of_nat i :: 64 word) = word_of_nat (50000 + i)" by simp
  moreover have "sint (word_of_nat (50000 + i) :: 64 word) = int (50000 + i)"
    using assms
    by (simp add: signed_of_nat signed_take_bit_int_eq_self_iff del: of_nat_add)
  ultimately show ?thesis by simp
qed

lemma ctxDone_same:
  "lifetime w' = lifetime w \<Longrightarrow> parentDone w' = parentDone w \<Longrightarrow> ctxDone w' = ctxDone w"
  by (simp add: ctxDone_def split: option.splits)

lemma recvPorts_alive:
  "\<not> ctxDone w \<Longrightarrow> \<not> portsClosed w \<Longrightarrow> portGen w = Offering p \<Longrightarrow>
   recvPorts picks w =
     (map (\<lambda>i. Returns (Received (p + word_of_nat i))) [0..<length picks],
      w\<lparr>portGen := Offering (p + word_of_nat (length picks))\<rparr>)"
proof (induction picks arbitrary: w p)
  case Nil
  then show ?case by simp
next
  case (Cons a picks)
  have s: "recvPort a w = (Returns (Received p), w\<lparr>portGen := Offering (p + 1)\<rparr>)"
    using Cons.prems by (simp add: recvPort_def)
  have "\<not> ctxDone (w\<lparr>portGen := Offering (p + 1)\<rparr>)" using Cons.prems(1) ctxDone_same [of "w\<lparr>portGen := Offering (p + 1)\<rparr>" w] by simp
  moreover have "\<not> portsClosed (w\<lparr>portGen := Offering (p + 1)\<rparr>)" using Cons.prems(2) by simp
  moreover have "portGen (w\<lparr>portGen := Offering (p + 1)\<rparr>) = Offering (p + 1)" by simp
  ultimately have ih: "recvPorts picks (w\<lparr>portGen := Offering (p + 1)\<rparr>) =
     (map (\<lambda>i. Returns (Received (p + 1 + word_of_nat i))) [0..<length picks],
      w\<lparr>portGen := Offering (p + 1)\<rparr>\<lparr>portGen := Offering (p + 1 + word_of_nat (length picks))\<rparr>)"
    by (rule Cons.IH)
  have m: "map (\<lambda>i. Returns (Received (p + word_of_nat i))) [0..<length (a # picks)] =
      Returns (Received p) # map (\<lambda>i. Returns (Received (p + 1 + word_of_nat i))) [0..<length picks]"
    by (simp add: upt_conv_Cons map_Suc_upt [symmetric] ac_simps del: upt_Suc)
  have fin: "w\<lparr>portGen := Offering (p + 1)\<rparr>\<lparr>portGen := Offering (p + 1 + word_of_nat (length picks))\<rparr>
      = w\<lparr>portGen := Offering (p + word_of_nat (length (a # picks)))\<rparr>"
    by (simp add: add.assoc)
  show ?case by (simp only: recvPorts.simps s ih prod.case m fin)
qed

lemma New_alive:
  assumes "New sys w0 = (w, Some u, None)" and "\<not> parentDone w0"
  shows "\<not> ctxDone w"
  using New_success(6,7) [OF assms(1)] assms(2) by (simp add: ctxDone_def)

lemma port_words_distinct:
  assumes "n \<le> 18446744073709551616"
  shows "distinct (map (\<lambda>i. Returns (Received (p + word_of_nat i :: 64 word))) [0..<n])"
proof -
  have "inj_on (\<lambda>i. Returns (Received (p + word_of_nat i :: 64 word))) {0..<n}"
  proof (rule inj_onI)
    fix i j assume i: "i \<in> {0..<n}" and j: "j \<in> {0..<n}"
      and e: "Returns (Received (p + word_of_nat i :: 64 word)) = Returns (Received (p + word_of_nat j))"
    from e have "(word_of_nat i :: 64 word) = word_of_nat j" by simp
    then have "take_bit 64 i = take_bit 64 j" by (simp add: word_of_nat_eq_iff)
    moreover have "i < 2 ^ 64" and "j < 2 ^ 64" using i j assms by simp_all
    ultimately show "i = j" by (simp add: take_bit_nat_eq_self)
  qed
  then show ?thesis by (simp add: distinct_map)
qed

text \<open>
  C3, as amended. From the state a successful \<^verbatim>\<open>New\<close> returns, with the parent
  context not ended and nothing but receives going on, every receive delivers a value
  and the universe stays alive. The first \<open>N\<close> receives deliver exactly 50000, 50001,
  ..., 50000 + N - 1 in this order for every \<open>N\<close> up to
  \<open>2 ^ 63 - 50000 = 9223372036854725808\<close>, where the Go \<^verbatim>\<open>int\<close> holding the port
  reaches its largest value; and no value is delivered twice among the first \<open>N\<close>
  receives for every \<open>N\<close> up to \<open>2 ^ 64 = 18446744073709551616\<close>.
\<close>

theorem ports_sequential:
  assumes new: "New sys w0 = (w, Some u, None)" and alive: "\<not> parentDone w0"
  shows "(length picks \<le> 9223372036854725808 \<longrightarrow>
            map portValue (fst (recvPorts picks w)) =
              map (\<lambda>i. Some (50000 + int i)) [0..<length picks]) \<and>
         (length picks \<le> 18446744073709551616 \<longrightarrow>
            distinct (fst (recvPorts picks w)) \<and>
            distinct (map portValue (fst (recvPorts picks w)))) \<and>
         (\<forall>r\<in>set (fst (recvPorts picks w)). \<exists>p. r = Returns (Received p)) \<and>
         \<not> ctxDone (snd (recvPorts picks w))"
proof -
  note fresh = New_success [OF new]
  note al = New_alive [OF new alive]
  note r = recvPorts_alive [OF al fresh(5) fresh(4), of picks]
  have v: "length picks \<le> 9223372036854725808 \<longrightarrow>
      map portValue (fst (recvPorts picks w)) = map (\<lambda>i. Some (50000 + int i)) [0..<length picks]"
  proof
    assume bound: "length picks \<le> 9223372036854725808"
    have "map portValue (map (\<lambda>i. Returns (Received (50000 + word_of_nat i))) [0..<length picks])
      = map (\<lambda>i. Some (50000 + int i)) [0..<length picks]"
    proof (rule nth_equalityI)
      show "length (map portValue (map (\<lambda>i. Returns (Received (50000 + word_of_nat i)))
        [0..<length picks])) = length (map (\<lambda>i. Some (50000 + int i)) [0..<length picks])"
        by simp
    next
      fix k assume "k < length (map portValue (map (\<lambda>i. Returns (Received (50000 + word_of_nat i)))
        [0..<length picks]))"
      then have k: "k < length picks" by simp
      with bound have "k < 9223372036854725808" by simp
      then have "sint (50000 + word_of_nat k :: 64 word) = 50000 + int k" by (rule sint_port)
      then show "map portValue (map (\<lambda>i. Returns (Received (50000 + word_of_nat i)))
        [0..<length picks]) ! k = map (\<lambda>i. Some (50000 + int i)) [0..<length picks] ! k"
        using k by (simp add: portValue_def)
    qed
    then show "map portValue (fst (recvPorts picks w)) =
        map (\<lambda>i. Some (50000 + int i)) [0..<length picks]"
      by (simp add: r)
  qed
  have d: "length picks \<le> 18446744073709551616 \<longrightarrow>
      distinct (fst (recvPorts picks w)) \<and> distinct (map portValue (fst (recvPorts picks w)))"
  proof
    assume b: "length picks \<le> 18446744073709551616"
    have d1: "distinct (fst (recvPorts picks w))"
      using port_words_distinct [OF b, of 50000] by (simp add: r)
    have "inj_on portValue (set (fst (recvPorts picks w)))"
    proof (rule inj_onI)
      fix x y assume "x \<in> set (fst (recvPorts picks w))" and "y \<in> set (fst (recvPorts picks w))"
        and e: "portValue x = portValue y"
      then obtain a b where "x = Returns (Received a)" and "y = Returns (Received b)"
        by (auto simp: r)
      with e have "sint a = sint b" by (simp add: portValue_def)
      then have "a = b" by (rule signed_word_eqI)
      then show "x = y" using \<open>x = Returns (Received a)\<close> \<open>y = Returns (Received b)\<close>
        by simp
    qed
    with d1 show "distinct (fst (recvPorts picks w)) \<and>
        distinct (map portValue (fst (recvPorts picks w)))"
      by (simp add: distinct_map)
  qed
  have ok: "\<forall>r\<in>set (fst (recvPorts picks w)). \<exists>p. r = Returns (Received p)"
    by (auto simp: r)
  have a: "\<not> ctxDone (snd (recvPorts picks w))"
    using al ctxDone_same [of "snd (recvPorts picks w)" w] by (simp add: r)
  show ?thesis using v d ok a by blast
qed

text \<open>
  Three receives on the sample universe.
\<close>

theorem ports_sequential_witness:
  "New sample_os sample_world = (sample_fresh, Some sample_universe, None) \<and>
   \<not> parentDone sample_world \<and>
   map portValue (fst (recvPorts [True, False, True] sample_fresh)) =
     [Some 50000, Some 50001, Some 50002] \<and>
   distinct (map portValue (fst (recvPorts [True, False, True] sample_fresh)))"
proof -
  have a: "\<not> parentDone sample_world" by (simp add: sample_world_def)
  have u: "[0..<3] = [0, 1, 2::nat]" by code_simp
  show ?thesis
    using ports_sequential [OF New_sample a, of "[True, False, True]"] New_sample a
    by (simp add: u)
qed
text \<open>
  The claim as first stated holds for every \<open>N\<close>. At \<open>N = 2 ^ 63 - 49999\<close> the last
  value would be \<open>2 ^ 63\<close>; the \<^verbatim>\<open>port++\<close> before it has wrapped the 64-bit
  \<^verbatim>\<open>int\<close>, and the value delivered is \<open>- 2 ^ 63\<close>.
\<close>

theorem ports_sequential_counterexample:
  "New sample_os sample_world = (sample_fresh, Some sample_universe, None) \<and>
   \<not> ctxDone sample_fresh \<and>
   portValue (fst (recvPorts (replicate 9223372036854725809 True) sample_fresh)
      ! 9223372036854725808) = Some (- 9223372036854775808)"
proof -
  have a: "\<not> parentDone sample_world" by (simp add: sample_world_def)
  note fresh = New_success [OF New_sample]
  note al = New_alive [OF New_sample a]
  note r = recvPorts_alive [OF al fresh(5) fresh(4), of "replicate 9223372036854725809 True"]
  have "fst (recvPorts (replicate 9223372036854725809 True) sample_fresh)
      ! 9223372036854725808 = Returns (Received (50000 + word_of_nat 9223372036854725808))"
    unfolding r by simp
  then show ?thesis using New_sample al by (simp add: portValue_def)
qed

lemma Close_world:
  "Close sys w u = (e, w', u') \<Longrightarrow>
     portsClosed w' = portsClosed w \<and> portGen w' = portGen w \<and> heap w' = heap w \<and>
     parentDone w' = parentDone w \<and> (ctxDone w \<longrightarrow> ctxDone w') \<and>
     (lifetime w \<noteq> None \<longrightarrow> lifetime w' \<noteq> None)"
  by (auto simp: Close_def shutdown_def Let_def ctxDone_def
      split: if_splits prod.splits option.splits)

lemma step_ports:
  assumes "step sys x (w, u) = (w', u')"
  shows "portsClosed w' = portsClosed w \<and>
         (portGen w = Returned \<longrightarrow> portGen w' = Returned) \<and>
         (portGen w \<noteq> NoGenerator \<longrightarrow> portGen w' \<noteq> NoGenerator) \<and>
         (ctxDone w \<longrightarrow> ctxDone w')"
proof (cases x)
  case CallClose
  obtain e where "Close sys w u = (e, w', u')" using assms CallClose
    by (cases "Close sys w u") auto
  from Close_world [OF this] show ?thesis by simp
next
  case ParentCancels
  with assms show ?thesis by (auto simp: ctxDone_def split: option.splits)
next
  case SwitchExits
  with assms show ?thesis by (auto simp: ctxDone_def split: option.splits if_splits)
next
  case SwitchWatcherRuns
  show ?thesis
  proof (cases "switchWatcher w = Waiting \<and> switchProc w = Exited")
    case True
    then obtain e where c: "Close sys (w\<lparr>switchWatcher := Finished\<rparr>) u = (e, w', u')"
      using assms SwitchWatcherRuns by (cases "Close sys (w\<lparr>switchWatcher := Finished\<rparr>) u") auto
    have "ctxDone (w\<lparr>switchWatcher := Finished\<rparr>) = ctxDone w"
      by (rule ctxDone_same) simp_all
    with Close_world [OF c] show ?thesis by simp
  next
    case False
    with assms SwitchWatcherRuns show ?thesis by auto
  qed
next
  case CtxWatcherRuns
  show ?thesis
  proof (cases "ctxWatcher w = Waiting \<and> ctxDone w")
    case True
    then obtain e where c: "Close sys (w\<lparr>ctxWatcher := Finished\<rparr>) u = (e, w', u')"
      using assms CtxWatcherRuns by (cases "Close sys (w\<lparr>ctxWatcher := Finished\<rparr>) u") auto
    have "ctxDone (w\<lparr>ctxWatcher := Finished\<rparr>) = ctxDone w"
      by (rule ctxDone_same) simp_all
    with Close_world [OF c] show ?thesis by simp
  next
    case False
    with assms CtxWatcherRuns show ?thesis by auto
  qed
next
  case PortGenRuns
  have "ctxDone (portGenRuns w) = ctxDone w"
    by (rule ctxDone_same) (simp_all add: portGenRuns_def split: portgen.splits)
  with assms PortGenRuns show ?thesis
    by (auto simp: portGenRuns_def split: portgen.splits if_splits)
next
  case (Receive pick)
  have "ctxDone (snd (recvPort pick w)) = ctxDone w"
    by (rule ctxDone_same) (simp_all add: recvPort_def split: portgen.splits)
  with assms Receive show ?thesis
    by (auto simp: recvPort_def split: portgen.splits if_splits)
next
  case CallIPv4
  obtain h where "ipv4 w u = (nextIP4 u, w\<lparr>heap := h\<rparr>, u\<lparr>nextIP4 := length (heap w)\<rparr>)"
    using ipv4_shape by blast
  moreover have "ctxDone (w\<lparr>heap := h\<rparr>) = ctxDone w" by (rule ctxDone_same) simp_all
  ultimately show ?thesis using assms CallIPv4 by auto
next
  case CallIPv6
  obtain h where "ipv6 w u = (nextIP6 u, w\<lparr>heap := h\<rparr>, u\<lparr>nextIP6 := length (heap w)\<rparr>)"
    using ipv6_shape by blast
  moreover have "ctxDone (w\<lparr>heap := h\<rparr>) = ctxDone w" by (rule ctxDone_same) simp_all
  ultimately show ?thesis using assms CallIPv6 by auto
next
  case (CallWait pick cd)
  with assms show ?thesis by (auto simp: Wait_def split: if_splits)
next
  case (CallTmpdir pre)
  have "ctxDone (snd (Tmpdir sys w u pre)) = ctxDone w"
    by (rule ctxDone_same) (simp_all add: Tmpdir_def split: sum.splits)
  with assms CallTmpdir show ?thesis
    by (auto simp: Tmpdir_def split: sum.splits)
qed

lemma run_ports:
  "run sys ops (w, u) = (w', u') \<Longrightarrow>
     portsClosed w' = portsClosed w \<and>
     (portGen w = Returned \<longrightarrow> portGen w' = Returned) \<and>
     (portGen w \<noteq> NoGenerator \<longrightarrow> portGen w' \<noteq> NoGenerator) \<and>
     (ctxDone w \<longrightarrow> ctxDone w')"
proof (induction ops arbitrary: w u)
  case Nil
  then show ?case by simp
next
  case (Cons x xs)
  obtain w1 u1 where s: "step sys x (w, u) = (w1, u1)" by (cases "step sys x (w, u)") auto
  from Cons.prems s have r: "run sys xs (w1, u1) = (w', u')" by simp
  show ?case using step_ports [OF s] Cons.IH [OF r] by simp
qed

text \<open>
  C2, as amended. In any state reached from a successful \<^verbatim>\<open>New\<close> in which the
  lifetime context has ended, a receive from the port stream never gives the not-ok
  indication, since nothing closes the channel. The port goroutine returns as soon as
  it runs and finds the context done. While it is still in its \<^verbatim>\<open>select\<close>, a receive
  gets the next port if the \<^verbatim>\<open>select\<close> picks the send, and is left without a sender
  if it picks the cancellation. Once the goroutine has returned, every receive, now and
  after any further operations, finds no sender: it blocks and does not return.
\<close>

theorem ports_after_cancel:
  assumes new: "New sys w0 = (w, Some u, None)" and before: "run sys ops (w, u) = (w1, u1)"
    and ended: "ctxDone w1"
  shows "fst (recvPort pick w1) \<noteq> Returns NotOk \<and>
         portGen (portGenRuns w1) = Returned \<and>
         (\<forall>p. portGen w1 = Offering p \<longrightarrow>
            recvPort True w1 = (Returns (Received p), w1\<lparr>portGen := Offering (p + 1)\<rparr>) \<and>
            recvPort False w1 = (Blocks, w1\<lparr>portGen := Returned\<rparr>)) \<and>
         (portGen w1 = Returned \<longrightarrow>
            (\<forall>later w2 u2. run sys later (w1, u1) = (w2, u2) \<longrightarrow>
               ctxDone w2 \<and> recvPort pick w2 = (Blocks, w2)))"
proof -
  note fresh = New_success [OF new]
  note inv = run_ports [OF before]
  have nc: "\<not> portsClosed w1" using inv fresh(5) by simp
  have ng: "portGen w1 \<noteq> NoGenerator" using inv fresh(4) by simp
  have 1: "fst (recvPort pick w1) \<noteq> Returns NotOk"
    using nc by (simp add: recvPort_def split: portgen.splits)
  have 2: "portGen (portGenRuns w1) = Returned"
    using ng ended by (simp add: portGenRuns_def split: portgen.splits)
  have 3: "\<forall>p. portGen w1 = Offering p \<longrightarrow>
            recvPort True w1 = (Returns (Received p), w1\<lparr>portGen := Offering (p + 1)\<rparr>) \<and>
            recvPort False w1 = (Blocks, w1\<lparr>portGen := Returned\<rparr>)"
    using nc ended by (simp add: recvPort_def)
  have 4: "portGen w1 = Returned \<longrightarrow>
            (\<forall>later w2 u2. run sys later (w1, u1) = (w2, u2) \<longrightarrow>
               ctxDone w2 \<and> recvPort pick w2 = (Blocks, w2))"
  proof (intro impI allI)
    fix later w2 u2
    assume g: "portGen w1 = Returned" and l: "run sys later (w1, u1) = (w2, u2)"
    note inv2 = run_ports [OF l]
    have "\<not> portsClosed w2" and "portGen w2 = Returned" and d: "ctxDone w2"
      using inv2 nc g ended by simp_all
    then have "recvPort pick w2 = (Blocks, w2)" by (simp add: recvPort_def)
    with d show "ctxDone w2 \<and> recvPort pick w2 = (Blocks, w2)" by simp
  qed
  show ?thesis using 1 2 3 4 by blast
qed

lemma run_sample_cancelled:
  "run sample_os [ParentCancels, PortGenRuns] (sample_fresh, sample_universe) =
     (sample_fresh\<lparr>parentDone := True, portGen := Returned\<rparr>, sample_universe)"
  by (simp add: portGenRuns_def ctxDone_def sample_fresh_def)

text \<open>
  The parent context of the sample universe ends and the port goroutine returns; a
  receive then, and one after a \<^verbatim>\<open>Close\<close> and another receive, block.
\<close>

theorem ports_after_cancel_witness:
  "New sample_os sample_world = (sample_fresh, Some sample_universe, None) \<and>
   ctxDone (sample_fresh\<lparr>parentDone := True, portGen := Returned\<rparr>) \<and>
   fst (recvPort True (sample_fresh\<lparr>parentDone := True, portGen := Returned\<rparr>)) \<noteq> Returns NotOk \<and>
   recvPort True (fst (run sample_os [CallClose, Receive True]
       (sample_fresh\<lparr>parentDone := True, portGen := Returned\<rparr>, sample_universe)))
     = (Blocks, fst (run sample_os [CallClose, Receive True]
       (sample_fresh\<lparr>parentDone := True, portGen := Returned\<rparr>, sample_universe)))"
proof -
  have d: "ctxDone (sample_fresh\<lparr>parentDone := True, portGen := Returned\<rparr>)"
    by (simp add: ctxDone_def sample_fresh_def)
  have g: "portGen (sample_fresh\<lparr>parentDone := True, portGen := Returned\<rparr>) = Returned"
    by simp
  obtain w2 u2 where l: "run sample_os [CallClose, Receive True]
       (sample_fresh\<lparr>parentDone := True, portGen := Returned\<rparr>, sample_universe) = (w2, u2)"
    by (cases "run sample_os [CallClose, Receive True]
       (sample_fresh\<lparr>parentDone := True, portGen := Returned\<rparr>, sample_universe)") auto
  note t = ports_after_cancel [OF New_sample run_sample_cancelled d, where pick = True]
  from t have "fst (recvPort True (sample_fresh\<lparr>parentDone := True, portGen := Returned\<rparr>))
      \<noteq> Returns NotOk" by blast
  moreover from t g l have "recvPort True w2 = (Blocks, w2)" by blast
  ultimately show ?thesis using New_sample d unfolding l by simp
qed

text \<open>
  The claim as first stated promises not-ok after the context has ended. On the sample
  universe with the parent context ended, a receive still gets port 50000 when the
  \<^verbatim>\<open>select\<close> picks the send, and once the port goroutine has returned a receive
  blocks, whatever the pick.
\<close>

theorem ports_after_cancel_counterexample:
  "ctxDone (fst (run sample_os [ParentCancels] (sample_fresh, sample_universe))) \<and>
   fst (recvPort True (fst (run sample_os [ParentCancels] (sample_fresh, sample_universe))))
     = Returns (Received 50000) \<and>
   ctxDone (fst (run sample_os [ParentCancels, PortGenRuns] (sample_fresh, sample_universe))) \<and>
   fst (recvPort True
     (fst (run sample_os [ParentCancels, PortGenRuns] (sample_fresh, sample_universe)))) = Blocks \<and>
   fst (recvPort False
     (fst (run sample_os [ParentCancels, PortGenRuns] (sample_fresh, sample_universe)))) = Blocks"
  by (simp add: portGenRuns_def recvPort_def ctxDone_def sample_fresh_def)

section \<open>Wait\<close>

lemma Close_lifetime:
  "Close sys w u = (e, w', u') \<Longrightarrow> lifetime w \<noteq> None \<Longrightarrow> (closed u \<longrightarrow> ctxDone w) \<Longrightarrow>
     lifetime w' \<noteq> None \<and> (closed u' \<longrightarrow> ctxDone w')"
  by (auto simp: Close_def shutdown_def Let_def ctxDone_def
      split: if_splits prod.splits option.splits)

lemma step_lifetime:
  assumes s: "step sys x (w, u) = (w', u')" and l: "lifetime w \<noteq> None"
    and c: "closed u \<longrightarrow> ctxDone w"
  shows "lifetime w' \<noteq> None \<and> (closed u' \<longrightarrow> ctxDone w')"
proof (cases x)
  case CallClose
  obtain e where "Close sys w u = (e, w', u')" using s CallClose
    by (cases "Close sys w u") auto
  from Close_lifetime [OF this l c] show ?thesis .
next
  case ParentCancels
  with s l c show ?thesis by (auto simp: ctxDone_def split: option.splits)
next
  case SwitchExits
  with s l c show ?thesis by (auto simp: ctxDone_def split: option.splits if_splits)
next
  case SwitchWatcherRuns
  show ?thesis
  proof (cases "switchWatcher w = Waiting \<and> switchProc w = Exited")
    case True
    then obtain e where cl: "Close sys (w\<lparr>switchWatcher := Finished\<rparr>) u = (e, w', u')"
      using s SwitchWatcherRuns by (cases "Close sys (w\<lparr>switchWatcher := Finished\<rparr>) u") auto
    have d: "ctxDone (w\<lparr>switchWatcher := Finished\<rparr>) = ctxDone w"
      by (rule ctxDone_same) simp_all
    have "lifetime (w\<lparr>switchWatcher := Finished\<rparr>) \<noteq> None" using l by simp
    moreover have "closed u \<longrightarrow> ctxDone (w\<lparr>switchWatcher := Finished\<rparr>)" using c d by simp
    ultimately show ?thesis by (rule Close_lifetime [OF cl])
  next
    case False
    with s SwitchWatcherRuns l c show ?thesis by auto
  qed
next
  case CtxWatcherRuns
  show ?thesis
  proof (cases "ctxWatcher w = Waiting \<and> ctxDone w")
    case True
    then obtain e where cl: "Close sys (w\<lparr>ctxWatcher := Finished\<rparr>) u = (e, w', u')"
      using s CtxWatcherRuns by (cases "Close sys (w\<lparr>ctxWatcher := Finished\<rparr>) u") auto
    have d: "ctxDone (w\<lparr>ctxWatcher := Finished\<rparr>) = ctxDone w"
      by (rule ctxDone_same) simp_all
    have "lifetime (w\<lparr>ctxWatcher := Finished\<rparr>) \<noteq> None" using l by simp
    moreover have "closed u \<longrightarrow> ctxDone (w\<lparr>ctxWatcher := Finished\<rparr>)" using c d by simp
    ultimately show ?thesis by (rule Close_lifetime [OF cl])
  next
    case False
    with s CtxWatcherRuns l c show ?thesis by auto
  qed
next
  case PortGenRuns
  have "ctxDone (portGenRuns w) = ctxDone w"
    by (rule ctxDone_same) (simp_all add: portGenRuns_def split: portgen.splits)
  moreover have "lifetime (portGenRuns w) = lifetime w"
    by (simp add: portGenRuns_def split: portgen.splits)
  ultimately show ?thesis using s PortGenRuns l c by auto
next
  case (Receive pick)
  have "ctxDone (snd (recvPort pick w)) = ctxDone w"
    by (rule ctxDone_same) (simp_all add: recvPort_def split: portgen.splits)
  moreover have "lifetime (snd (recvPort pick w)) = lifetime w"
    by (simp add: recvPort_def split: portgen.splits)
  ultimately show ?thesis using s Receive l c by auto
next
  case CallIPv4
  obtain h where "ipv4 w u = (nextIP4 u, w\<lparr>heap := h\<rparr>, u\<lparr>nextIP4 := length (heap w)\<rparr>)"
    using ipv4_shape by blast
  moreover have "ctxDone (w\<lparr>heap := h\<rparr>) = ctxDone w" by (rule ctxDone_same) simp_all
  ultimately show ?thesis using s CallIPv4 l c by auto
next
  case CallIPv6
  obtain h where "ipv6 w u = (nextIP6 u, w\<lparr>heap := h\<rparr>, u\<lparr>nextIP6 := length (heap w)\<rparr>)"
    using ipv6_shape by blast
  moreover have "ctxDone (w\<lparr>heap := h\<rparr>) = ctxDone w" by (rule ctxDone_same) simp_all
  ultimately show ?thesis using s CallIPv6 l c by auto
next
  case (CallWait pick cd)
  with s l c show ?thesis by (auto simp: Wait_def split: if_splits)
next
  case (CallTmpdir pre)
  have "ctxDone (snd (Tmpdir sys w u pre)) = ctxDone w"
    by (rule ctxDone_same) (simp_all add: Tmpdir_def split: sum.splits)
  moreover have "lifetime (snd (Tmpdir sys w u pre)) = lifetime w"
    by (simp add: Tmpdir_def split: sum.splits)
  ultimately show ?thesis using s CallTmpdir l c by auto
qed

lemma run_lifetime:
  "run sys ops (w, u) = (w', u') \<Longrightarrow> lifetime w \<noteq> None \<Longrightarrow> (closed u \<longrightarrow> ctxDone w) \<Longrightarrow>
     lifetime w' \<noteq> None \<and> (closed u' \<longrightarrow> ctxDone w')"
proof (induction ops arbitrary: w u)
  case Nil
  then show ?case by simp
next
  case (Cons x xs)
  obtain w1 u1 where s: "step sys x (w, u) = (w1, u1)" by (cases "step sys x (w, u)") auto
  from Cons.prems(1) s have r: "run sys xs (w1, u1) = (w', u')" by simp
  note a = step_lifetime [OF s Cons.prems(2) Cons.prems(3)]
  from a have l1: "lifetime w1 \<noteq> None" and c1: "closed u1 \<longrightarrow> ctxDone w1" by simp_all
  show ?case by (rule Cons.IH [OF r l1 c1])
qed

text \<open>
  C8, as amended. In any state reached from a successful \<^verbatim>\<open>New\<close>, \<^verbatim>\<open>Wait\<close> blocks
  exactly as long as neither the lifetime context nor the caller's context has ended.
  When only the lifetime context has ended it returns nil, and the lifetime context has
  ended whenever the universe has been closed or the parent context has ended. When only
  the caller's context has ended it returns the timeout error. When both have ended by
  the time its \<^verbatim>\<open>select\<close> runs it returns the one or the other, as the \<^verbatim>\<open>select\<close>
  picks, whichever of the two ended first. In every case the world and the universe are
  what they were: \<^verbatim>\<open>Wait\<close> does not close, cancel or change anything.
\<close>

theorem Wait_observes:
  assumes new: "New sys w0 = (w, Some u, None)" and before: "run sys ops (w, u) = (w1, u1)"
  shows "(case Wait pick w1 u1 callerDone of (r, w', u') \<Rightarrow>
            w' = w1 \<and> u' = u1 \<and>
            (r = Blocks \<longleftrightarrow> \<not> ctxDone w1 \<and> \<not> callerDone) \<and>
            (ctxDone w1 \<and> \<not> callerDone \<longrightarrow> r = Returns None) \<and>
            (callerDone \<and> \<not> ctxDone w1 \<longrightarrow> r = Returns (Some (ErrorString ''timeout''))) \<and>
            (ctxDone w1 \<and> callerDone \<longrightarrow>
               r = Returns (if pick then None else Some (ErrorString ''timeout'')))) \<and>
         step sys (CallWait pick callerDone) (w1, u1) = (w1, u1) \<and>
         (closed u1 \<longrightarrow> ctxDone w1) \<and> (parentDone w1 \<longrightarrow> ctxDone w1)"
proof -
  note fresh = New_success [OF new]
  have l0: "lifetime w \<noteq> None" using fresh(6) by simp
  have c0: "closed u \<longrightarrow> ctxDone w" using fresh(8) by simp
  note inv = run_lifetime [OF before l0 c0]
  have 1: "case Wait pick w1 u1 callerDone of (r, w', u') \<Rightarrow>
            w' = w1 \<and> u' = u1 \<and>
            (r = Blocks \<longleftrightarrow> \<not> ctxDone w1 \<and> \<not> callerDone) \<and>
            (ctxDone w1 \<and> \<not> callerDone \<longrightarrow> r = Returns None) \<and>
            (callerDone \<and> \<not> ctxDone w1 \<longrightarrow> r = Returns (Some (ErrorString ''timeout''))) \<and>
            (ctxDone w1 \<and> callerDone \<longrightarrow>
               r = Returns (if pick then None else Some (ErrorString ''timeout'')))"
    by (simp add: Wait_def)
  have 2: "step sys (CallWait pick callerDone) (w1, u1) = (w1, u1)"
    by (simp add: Wait_def)
  have 3: "closed u1 \<longrightarrow> ctxDone w1" using inv by simp
  have 4: "parentDone w1 \<longrightarrow> ctxDone w1"
    using inv by (auto simp: ctxDone_def split: option.splits)
  show ?thesis using 1 2 3 4 by blast
qed

lemma run_sample_closed:
  "run sample_os [CallClose] (sample_fresh, sample_universe) =
     (sample_fresh\<lparr>lifetime := Some True, files := [],
        trace := trace sample_fresh @ [Shutdown, RemoveAllCall ''/tmp/virtuakube042'']\<rparr>,
      sample_universe\<lparr>closed := True, closeErr := None\<rparr>)"
  by (simp add: Close_first sample_universe_def sample_fresh_def sample_os_def)

text \<open>
  On the sample universe: blocked while alive, timeout when only the caller's context
  has ended, nil once the universe has been closed.
\<close>

theorem Wait_observes_witness:
  "New sample_os sample_world = (sample_fresh, Some sample_universe, None) \<and>
   Wait True sample_fresh sample_universe False = (Blocks, sample_fresh, sample_universe) \<and>
   Wait True sample_fresh sample_universe True =
     (Returns (Some (ErrorString ''timeout'')), sample_fresh, sample_universe) \<and>
   fst (Wait True (fst (run sample_os [CallClose] (sample_fresh, sample_universe)))
          (snd (run sample_os [CallClose] (sample_fresh, sample_universe))) False)
     = Returns None"
proof -
  have a: "\<not> ctxDone sample_fresh" by (simp add: ctxDone_def sample_fresh_def)
  have r0: "run sample_os [] (sample_fresh, sample_universe) = (sample_fresh, sample_universe)"
    by simp
  note t0 = Wait_observes [OF New_sample r0]
  have 1: "Wait True sample_fresh sample_universe False = (Blocks, sample_fresh, sample_universe)"
    using t0 [where pick = True and callerDone = False] a by (auto split: prod.splits)
  have 2: "Wait True sample_fresh sample_universe True =
     (Returns (Some (ErrorString ''timeout'')), sample_fresh, sample_universe)"
    using t0 [where pick = True and callerDone = True] a by (auto split: prod.splits)
  obtain w1 u1 where r1: "run sample_os [CallClose] (sample_fresh, sample_universe) = (w1, u1)"
    by (cases "run sample_os [CallClose] (sample_fresh, sample_universe)") auto
  have cl: "closed u1" using r1 unfolding run_sample_closed by auto
  note t1 = Wait_observes [OF New_sample r1, where pick = True and callerDone = False]
  from t1 cl have 3: "fst (Wait True w1 u1 False) = Returns None"
    by (auto split: prod.splits)
  show ?thesis using New_sample 1 2 3 unfolding r1 by simp
qed

text \<open>
  The claim as first stated promises nil when the lifetime context ends and the timeout
  only when the caller's context ends first. On the sample universe the parent context
  ends while the caller's context is live, where \<^verbatim>\<open>Wait\<close> returns nil; the caller's
  context ends after that, and \<^verbatim>\<open>Wait\<close> can then return the timeout error although
  the lifetime context ended first.
\<close>

theorem Wait_observes_counterexample:
  "\<not> ctxDone sample_fresh \<and>
   ctxDone (fst (run sample_os [ParentCancels] (sample_fresh, sample_universe))) \<and>
   fst (Wait False (fst (run sample_os [ParentCancels] (sample_fresh, sample_universe)))
          sample_universe False) = Returns None \<and>
   fst (Wait False (fst (run sample_os [ParentCancels] (sample_fresh, sample_universe)))
          sample_universe True) = Returns (Some (ErrorString ''timeout''))"
  by (simp add: Wait_def ctxDone_def sample_fresh_def)

end
